theory Spec2Isabelle
  imports Main "HOL-Library.AList" "HOL-Library.Multiset"
begin

section \<open>Data model (task-queue.ts)\<close>

text \<open>
  The task graph and the orchestrator of spawnee, embedded as functions on an explicit
  state. A JavaScript \<open>Map\<close> is an association list in insertion order
  (\<open>AList.update\<close> keeps the place of a key that is already there and appends a new
  one, as \<open>Map.set\<close> does); a \<open>Set\<close> of ids is a HOL set; \<open>number\<close> fields hold
  integers. The field \<open>id\<close> of the source is \<open>task_id\<close> here (\<open>id\<close> is the identity
  function of HOL). The payload fields \<open>branch\<close>, \<open>files\<close> and \<open>validation\<close> are only read
  by \<open>buildPrompt\<close>, which changes no state, and are left out; so is the wall-clock
  stamp \<open>completedAt\<close>.
\<close>

datatype TaskStatus = Pending | Ready | Running | Completed | Failed

record TaskResult =
  branch :: "string option"
  pullRequestUrl :: "string option"

record TaskInput =
  task_id :: string
  name :: string
  prompt :: string
  dependsOn :: "string list"
  priority :: int
  timeout :: "int option"
  retries :: "int option"
  complete :: bool

record Task = TaskInput +
  status :: TaskStatus
  agentId :: "string option"
  attempts :: int
  error :: "string option"
  result :: "TaskResult option"

datatype js_error = Error string

text \<open>
  What the process does that an observer can see: the events of the two emitters, the
  calls to the executor client and the calls to the state store, newest first.
\<close>

datatype event =
    TaskReady string | TaskStarted string | TaskCompleted string | TaskFailed string
  | TaskRetry string | AllComplete
  | Started | AgentSpawned string string | Complete | Stopped
  | CreateAgent string | StartMonitoring string | StopMonitoring string
  | StopAllMonitoring | StopAgent string | SendFollowUp string string
  | SaveState | ClearStore

text \<open>
  An \<open>async\<close> function that has reached an \<open>await\<close> is a suspended continuation:
  \<open>start\<close> waiting for its \<open>saveState\<close>; the dispatch loop waiting for \<open>createAgent\<close>
  of one task, with the rest of its batch; the dispatch loop waiting for the
  \<open>saveState\<close> that ends \<open>spawnAgent\<close>, with the rest of its batch; \<open>stop\<close> waiting
  for a \<open>stopAgent\<close>, with the place its iterator over the keys of \<open>activeAgents\<close> has
  reached (the number of live entries before it).
\<close>

datatype suspended =
    StartSave
  | AwaitCreate string "string list"
  | AwaitSave string "string list"
  | AwaitStop nat

record orch =
  tasks :: "(string \<times> Task) list"
  completed :: "string set"
  activeAgents :: "(string \<times> string) list"
  timeouts :: "(string \<times> nat) list"
  timers :: "(nat \<times> string) list"
  nextTimer :: nat
  isRunning :: bool
  maxConcurrent :: int
  awaiting :: "suspended list"
  trace :: "event list"

definition init :: "int \<Rightarrow> orch" where
  "init mc = \<lparr>tasks = [], completed = {}, activeAgents = [], timeouts = [], timers = [],
     nextTimer = 0, isRunning = False, maxConcurrent = mc, awaiting = [], trace = []\<rparr>"

definition logEvent :: "event \<Rightarrow> orch \<Rightarrow> orch" where
  "logEvent e s = s\<lparr>trace := e # trace s\<rparr>"

definition newTask :: "TaskInput \<Rightarrow> Task" where
  "newTask i = \<lparr>task_id = task_id i, name = name i, prompt = prompt i,
     dependsOn = dependsOn i, priority = priority i, timeout = timeout i,
     retries = retries i, complete = complete i,
     status = Pending, agentId = None, attempts = 0, error = None, result = None\<rparr>"

section \<open>Timers (orchestrator.ts)\<close>

text \<open>
  \<open>timers\<close> are the timers armed in the runtime, each with the agent id its callback
  closes over; \<open>timeouts\<close> is the orchestrator's table from agent id to timer.
\<close>

definition clearTimeout :: "string \<Rightarrow> orch \<Rightarrow> orch" where
  "clearTimeout a s =
     (case map_of (timeouts s) a of
        None \<Rightarrow> s
      | Some n \<Rightarrow> s\<lparr>timers := filter (\<lambda>p. fst p \<noteq> n) (timers s),
                     timeouts := AList.delete a (timeouts s)\<rparr>)"

definition clearAllTimeouts :: "orch \<Rightarrow> orch" where
  "clearAllTimeouts s =
     s\<lparr>timers := filter (\<lambda>p. fst p \<notin> snd ` set (timeouts s)) (timers s), timeouts := []\<rparr>"

section \<open>Ready tasks and the dispatch loop\<close>

text \<open>
  \<open>Array.prototype.sort\<close> is stable; it is modelled by a stable insertion sort driven
  by the comparator, which puts \<open>a\<close> before \<open>b\<close> when the comparator is not positive.
\<close>

fun insert_by :: "('a \<Rightarrow> 'a \<Rightarrow> int) \<Rightarrow> 'a \<Rightarrow> 'a list \<Rightarrow> 'a list" where
  "insert_by cmp x [] = [x]"
| "insert_by cmp x (y # ys) = (if cmp x y \<le> 0 then x # y # ys else y # insert_by cmp x ys)"

definition js_sort :: "('a \<Rightarrow> 'a \<Rightarrow> int) \<Rightarrow> 'a list \<Rightarrow> 'a list" where
  "js_sort cmp xs = foldr (insert_by cmp) xs []"

definition getReadyTasks :: "orch \<Rightarrow> Task list" where
  "getReadyTasks s =
     js_sort (\<lambda>a b. priority b - priority a)
       (filter (\<lambda>t. status t = Ready) (map snd (tasks s)))"

text \<open>
  The \<open>for\<close> loop of \<open>trySpawnAgents\<close> over what is left of its batch, up to its next
  \<open>await\<close>: nothing is left, or \<open>spawnAgent\<close> builds the prompt, issues \<open>createAgent\<close>
  for the next task and suspends.
\<close>

fun dispatchLoop :: "string list \<Rightarrow> orch \<Rightarrow> orch" where
  "dispatchLoop [] s = s"
| "dispatchLoop (t # rest) s =
     s\<lparr>awaiting := awaiting s @ [AwaitCreate t rest], trace := CreateAgent t # trace s\<rparr>"

definition trySpawnAgents :: "orch \<Rightarrow> orch" where
  "trySpawnAgents s =
     (if \<not> isRunning s then s
      else let availableSlots = maxConcurrent s - int (length (activeAgents s)) in
        if availableSlots \<le> 0 then s
        else dispatchLoop (map task_id (take (nat availableSlots) (getReadyTasks s))) s)"

section \<open>Task queue transitions, with the orchestrator's listeners inlined\<close>

definition depsComplete :: "string set \<Rightarrow> Task \<Rightarrow> bool" where
  "depsComplete c t = list_all (\<lambda>d. d \<in> c) (dependsOn t)"

definition setTask :: "string \<Rightarrow> Task \<Rightarrow> orch \<Rightarrow> orch" where
  "setTask i t s = s\<lparr>tasks := AList.update i t (tasks s)\<rparr>"

text \<open>One turn of the loop of \<open>updateReadyTasks\<close>; the listener of \<open>taskReady\<close> is
  \<open>trySpawnAgents\<close>.\<close>

definition readyStep :: "string \<Rightarrow> orch \<Rightarrow> orch" where
  "readyStep i s =
     (case map_of (tasks s) i of
        None \<Rightarrow> s
      | Some t \<Rightarrow>
          if status t \<noteq> Pending then s
          else if \<not> depsComplete (completed s) t then s
          else trySpawnAgents (logEvent (TaskReady i) (setTask i (t\<lparr>status := Ready\<rparr>) s)))"

definition updateReadyTasks :: "orch \<Rightarrow> orch" where
  "updateReadyTasks s = fold readyStep (map fst (tasks s)) s"

text \<open>The listener of \<open>allComplete\<close>.\<close>

definition onAllComplete :: "orch \<Rightarrow> orch" where
  "onAllComplete s =
     logEvent ClearStore (logEvent Complete
       (clearAllTimeouts (logEvent StopAllMonitoring (s\<lparr>isRunning := False\<rparr>))))"

definition allDone :: "orch \<Rightarrow> bool" where
  "allDone s = list_all (\<lambda>t. status t = Completed \<or> status t = Failed) (map snd (tasks s))"

definition checkAllComplete :: "orch \<Rightarrow> orch" where
  "checkAllComplete s = (if allDone s then onAllComplete (logEvent AllComplete s) else s)"

definition markRunning :: "string \<Rightarrow> string \<Rightarrow> orch \<Rightarrow> orch" where
  "markRunning i a s =
     (case map_of (tasks s) i of
        None \<Rightarrow> s
      | Some t \<Rightarrow>
          logEvent (TaskStarted i)
            (setTask i (t\<lparr>status := Running, agentId := Some a, attempts := attempts t + 1\<rparr>) s))"

text \<open>The listeners of \<open>taskCompleted\<close> and \<open>taskFailed\<close> log, re-emit and call
  \<open>saveState\<close> without awaiting it.\<close>

definition markCompleted :: "string \<Rightarrow> TaskResult \<Rightarrow> bool \<Rightarrow> orch \<Rightarrow> orch" where
  "markCompleted i r checkComplete s =
     (case map_of (tasks s) i of
        None \<Rightarrow> s
      | Some t \<Rightarrow>
          let s1 = (setTask i (t\<lparr>status := Completed, result := Some r\<rparr>) s)
                     \<lparr>completed := insert i (completed s)\<rparr>;
              s2 = logEvent SaveState (logEvent (TaskCompleted i) s1);
              s3 = updateReadyTasks s2
          in if checkComplete then checkAllComplete s3 else s3)"

definition markFailed :: "string \<Rightarrow> string \<Rightarrow> int \<Rightarrow> orch \<Rightarrow> orch" where
  "markFailed i err maxRetries s =
     (case map_of (tasks s) i of
        None \<Rightarrow> s
      | Some t \<Rightarrow>
          if attempts t < (case retries t of Some r \<Rightarrow> r | None \<Rightarrow> maxRetries)
          then logEvent (TaskRetry i) (setTask i (t\<lparr>status := Ready, error := Some err\<rparr>) s)
          else checkAllComplete
                 (logEvent SaveState (logEvent (TaskFailed i)
                    (setTask i (t\<lparr>status := Failed, error := Some err\<rparr>) s))))"

text \<open>The orchestrator never passes \<open>maxRetries\<close>: the default of the parameter applies.\<close>

definition defaultMaxRetries :: int where
  "defaultMaxRetries = 2"

definition noResult :: TaskResult where
  "noResult = \<lparr>branch = None, pullRequestUrl = None\<rparr>"

definition addOne :: "TaskInput \<Rightarrow> orch \<Rightarrow> orch" where
  "addOne i s =
     (let s1 = setTask (task_id i) (newTask i) s
      in if complete i then markCompleted (task_id i) noResult False s1 else s1)"

definition addTasks :: "TaskInput list \<Rightarrow> orch \<Rightarrow> orch" where
  "addTasks inputs s = updateReadyTasks (fold addOne inputs s)"

section \<open>Orchestrator operations\<close>

definition loadTasks :: "TaskInput list \<Rightarrow> orch \<Rightarrow> orch" where
  "loadTasks inputs s = addTasks inputs s"

text \<open>
  An operation that can throw returns the error or unit, together with the state it
  leaves. \<open>start\<close> runs up to its first \<open>await\<close>.
\<close>

definition start :: "orch \<Rightarrow> (js_error + unit) \<times> orch" where
  "start s =
     (if isRunning s then (Inl (Error ''Orchestrator is already running''), s)
      else (Inr (),
            (logEvent SaveState (logEvent Started (s\<lparr>isRunning := True\<rparr>)))
              \<lparr>awaiting := awaiting s @ [StartSave]\<rparr>))"

text \<open>
  The \<open>for\<close> loop of \<open>stop\<close> from place \<open>n\<close> of its iterator up to its next \<open>await\<close>:
  the iterator is live, so it sees the map as it is now; it issues \<open>stopAgent\<close> for the
  next key and suspends (a rejection is swallowed, so the loop goes on in the same way
  when the request settles either way), or the keys are exhausted and \<open>stopped\<close> is
  emitted. \<open>stop\<close> itself runs up to its first \<open>await\<close>.
\<close>

definition stopLoop :: "nat \<Rightarrow> orch \<Rightarrow> orch" where
  "stopLoop n s =
     (if n < length (activeAgents s)
      then (logEvent (StopAgent (fst (activeAgents s ! n))) s)
             \<lparr>awaiting := awaiting s @ [AwaitStop (Suc n)]\<rparr>
      else logEvent Stopped s)"

definition stop :: "orch \<Rightarrow> orch" where
  "stop s = stopLoop 0 (clearAllTimeouts (logEvent StopAllMonitoring (s\<lparr>isRunning := False\<rparr>)))"

text \<open>
  \<open>activeAgents.delete(a)\<close>: the entry goes, and an iterator that had passed it has one
  live entry less before its place.
\<close>

definition keyIndex :: "string \<Rightarrow> (string \<times> string) list \<Rightarrow> nat" where
  "keyIndex a xs = length (takeWhile (\<lambda>p. fst p \<noteq> a) xs)"

definition iterAfterDelete :: "nat \<Rightarrow> suspended \<Rightarrow> suspended" where
  "iterAfterDelete j c =
     (case c of AwaitStop n \<Rightarrow> (if j < n then AwaitStop (n - 1) else AwaitStop n) | _ \<Rightarrow> c)"

definition unbind :: "string \<Rightarrow> orch \<Rightarrow> orch" where
  "unbind a s =
     s\<lparr>activeAgents := AList.delete a (activeAgents s),
       awaiting := map (iterAfterDelete (keyIndex a (activeAgents s))) (awaiting s)\<rparr>"

text \<open>In \<open>if (!x)\<close> on an optional string, both \<open>undefined\<close> and the empty string are
  falsy.\<close>

definition truthy :: "string option \<Rightarrow> bool" where
  "truthy x = (case x of None \<Rightarrow> False | Some v \<Rightarrow> v \<noteq> [])"

definition sendFollowUp :: "string \<Rightarrow> string \<Rightarrow> orch \<Rightarrow> (js_error + unit) \<times> orch" where
  "sendFollowUp taskId message s =
     (case map_of (tasks s) taskId of
        None \<Rightarrow> (Inl (Error (''No active agent for task '' @ taskId)), s)
      | Some t \<Rightarrow>
          if \<not> truthy (agentId t) then (Inl (Error (''No active agent for task '' @ taskId)), s)
          else (Inr (), logEvent (SendFollowUp (the (agentId t)) message) s))"

definition handleAgentComplete :: "string \<Rightarrow> TaskResult \<Rightarrow> orch \<Rightarrow> orch" where
  "handleAgentComplete a r s =
     (if \<not> truthy (map_of (activeAgents s) a) then s
      else let taskId = the (map_of (activeAgents s) a);
               s1 = unbind a s;
               s2 = clearTimeout a s1;
               s3 = markCompleted taskId r True s2
           in trySpawnAgents s3)"

definition handleAgentFailed :: "string \<Rightarrow> string \<Rightarrow> orch \<Rightarrow> orch" where
  "handleAgentFailed a err s =
     (if \<not> truthy (map_of (activeAgents s) a) then s
      else let taskId = the (map_of (activeAgents s) a);
               s1 = unbind a s;
               s2 = clearTimeout a s1;
               s3 = logEvent (StopMonitoring a) s2;
               s4 = markFailed taskId err defaultMaxRetries s3
           in trySpawnAgents s4)"

text \<open>The body of the timer callback armed by \<open>spawnAgent\<close> for agent \<open>a\<close>.\<close>

definition timeoutCallback :: "string \<Rightarrow> orch \<Rightarrow> orch" where
  "timeoutCallback a s =
     (if map_of (activeAgents s) a = None then s
      else handleAgentFailed a ''Timeout exceeded'' (logEvent (StopAgent a) s))"

text \<open>\<open>spawnAgent\<close> from the moment \<open>createAgent\<close> has returned agent \<open>a\<close> for task \<open>t\<close>
  to its \<open>await\<close> of \<open>saveState\<close>.\<close>

definition spawnAgentBound :: "string \<Rightarrow> string list \<Rightarrow> string \<Rightarrow> orch \<Rightarrow> orch" where
  "spawnAgentBound t rest a s =
     (let s1 = s\<lparr>activeAgents := AList.update a t (activeAgents s)\<rparr>;
          s2 = markRunning t a s1;
          s3 = logEvent (StartMonitoring a) s2;
          s4 = s3\<lparr>timers := timers s3 @ [(nextTimer s3, a)],
                  timeouts := AList.update a (nextTimer s3) (timeouts s3),
                  nextTimer := Suc (nextTimer s3)\<rparr>;
          s5 = logEvent SaveState (logEvent (AgentSpawned t a) s4)
      in s5\<lparr>awaiting := awaiting s5 @ [AwaitSave t rest]\<rparr>)"

section \<open>The event loop\<close>

definition nth_opt :: "'a list \<Rightarrow> nat \<Rightarrow> 'a option" where
  "nth_opt xs k = (if k < length xs then Some (xs ! k) else None)"

definition resume :: "nat \<Rightarrow> orch \<Rightarrow> orch" where
  "resume k s = s\<lparr>awaiting := take k (awaiting s) @ drop (Suc k) (awaiting s)\<rparr>"

text \<open>
  What can happen next: a call of the public interface, the settling of a promise a
  suspended continuation waits for (\<open>k\<close> is its place in \<open>awaiting\<close>), a signal of the
  executor client, or a timer going off. \<open>step\<close> is \<open>None\<close> when the action cannot
  happen in the state.
\<close>

datatype action =
    LoadTasks "TaskInput list"
  | Start
  | Stop
  | FollowUp string string
  | CreateResolved nat string
  | CreateRejected nat string
  | SaveResolved nat
  | SaveRejected nat string
  | StopSettled nat
  | SigCompleted string TaskResult
  | SigFailed string "string option"
  | SigCancelled string
  | SigError string string
  | TimerFires nat

definition createResolved :: "nat \<Rightarrow> string \<Rightarrow> orch \<Rightarrow> orch option" where
  "createResolved k a s =
     (case nth_opt (awaiting s) k of
        Some (AwaitCreate t rest) \<Rightarrow> Some (spawnAgentBound t rest a (resume k s))
      | _ \<Rightarrow> None)"

text \<open>The \<open>catch\<close> of the dispatch loop, then the next turn of the loop.\<close>

definition createRejected :: "nat \<Rightarrow> string \<Rightarrow> orch \<Rightarrow> orch option" where
  "createRejected k msg s =
     (case nth_opt (awaiting s) k of
        Some (AwaitCreate t rest) \<Rightarrow>
          Some (dispatchLoop rest (markFailed t msg defaultMaxRetries (resume k s)))
      | _ \<Rightarrow> None)"

definition saveResolved :: "nat \<Rightarrow> orch \<Rightarrow> orch option" where
  "saveResolved k s =
     (case nth_opt (awaiting s) k of
        Some StartSave \<Rightarrow> Some (trySpawnAgents (resume k s))
      | Some (AwaitSave t rest) \<Rightarrow> Some (dispatchLoop rest (resume k s))
      | _ \<Rightarrow> None)"

definition saveRejected :: "nat \<Rightarrow> string \<Rightarrow> orch \<Rightarrow> orch option" where
  "saveRejected k msg s =
     (case nth_opt (awaiting s) k of
        Some StartSave \<Rightarrow> Some (resume k s)
      | Some (AwaitSave t rest) \<Rightarrow>
          Some (dispatchLoop rest (markFailed t msg defaultMaxRetries (resume k s)))
      | _ \<Rightarrow> None)"

text \<open>A \<open>stopAgent\<close> awaited by \<open>stop\<close> has settled.\<close>

definition stopSettled :: "nat \<Rightarrow> orch \<Rightarrow> orch option" where
  "stopSettled k s =
     (case nth_opt (awaiting s) k of
        Some (AwaitStop n) \<Rightarrow> Some (stopLoop n (resume k s))
      | _ \<Rightarrow> None)"

definition timerFires :: "nat \<Rightarrow> orch \<Rightarrow> orch option" where
  "timerFires n s =
     (case map_of (timers s) n of
        None \<Rightarrow> None
      | Some a \<Rightarrow> Some (timeoutCallback a (s\<lparr>timers := filter (\<lambda>p. fst p \<noteq> n) (timers s)\<rparr>)))"

fun step :: "action \<Rightarrow> orch \<Rightarrow> orch option" where
  "step (LoadTasks inputs) s = Some (loadTasks inputs s)"
| "step Start s = Some (snd (start s))"
| "step Stop s = Some (stop s)"
| "step (FollowUp i m) s = Some (snd (sendFollowUp i m s))"
| "step (CreateResolved k a) s = createResolved k a s"
| "step (CreateRejected k msg) s = createRejected k msg s"
| "step (SaveResolved k) s = saveResolved k s"
| "step (SaveRejected k msg) s = saveRejected k msg s"
| "step (StopSettled k) s = stopSettled k s"
| "step (SigCompleted a r) s = Some (handleAgentComplete a r s)"
| "step (SigFailed a summary) s =
     Some (handleAgentFailed a (if truthy summary then the summary else ''Agent failed'') s)"
| "step (SigCancelled a) s = Some (handleAgentFailed a ''Agent was stopped'' s)"
| "step (SigError a msg) s = Some s"
| "step (TimerFires n) s = timerFires n s"

fun run :: "action list \<Rightarrow> orch \<Rightarrow> orch option" where
  "run [] s = Some s"
| "run (a # as) s = (case step a s of None \<Rightarrow> None | Some s' \<Rightarrow> run as s')"

section \<open>Example inputs\<close>

text \<open>A task input with the given id, dependencies, priority, retries and pre-mark, and
  a view of the task table: id, status and attempts of every task, in table order.\<close>

definition mkInput :: "string \<Rightarrow> string list \<Rightarrow> int \<Rightarrow> int option \<Rightarrow> bool \<Rightarrow> TaskInput" where
  "mkInput i ds p r c = \<lparr>task_id = i, name = i, prompt = [], dependsOn = ds, priority = p,
     timeout = None, retries = r, complete = c\<rparr>"

definition summary :: "orch \<Rightarrow> (string \<times> TaskStatus \<times> int) list" where
  "summary s = map (\<lambda>(k, t). (k, status t, attempts t)) (tasks s)"

text \<open>One task \<open>A\<close>, dispatched and bound to the agent \<open>a1\<close>, its timer armed.\<close>

definition oneRunning :: orch where
  "oneRunning =
     (case run [LoadTasks [mkInput ''A'' [] 0 None False], Start, SaveResolved 0,
                CreateResolved 0 ''a1'', SaveResolved 0] (init 2) of
        Some s \<Rightarrow> s | None \<Rightarrow> init 2)"

section \<open>Readiness, in-flight tasks and the invariant of the event loop\<close>

text \<open>
  What the scan does to one task: a \<open>pending\<close> task whose dependencies are all completed
  becomes \<open>ready\<close>, any other task stays as it is.
\<close>

definition promote :: "string set \<Rightarrow> Task \<Rightarrow> Task" where
  "promote c t = (if status t = Pending \<and> depsComplete c t then t\<lparr>status := Ready\<rparr> else t)"

text \<open>
  The task ids in flight: those bound to a handle and those in the batch of a suspended
  dispatch loop. An id is satisfied when its task is in the table with all its
  dependencies completed.
\<close>

definition contIds :: "suspended \<Rightarrow> string list" where
  "contIds c =
     (case c of StartSave \<Rightarrow> [] | AwaitCreate t rest \<Rightarrow> t # rest | AwaitSave t rest \<Rightarrow> t # rest
      | AwaitStop n \<Rightarrow> [])"

definition satisfied :: "orch \<Rightarrow> string \<Rightarrow> bool" where
  "satisfied s i = (case map_of (tasks s) i of None \<Rightarrow> False | Some t \<Rightarrow> depsComplete (completed s) t)"

definition inflight :: "orch \<Rightarrow> string list" where
  "inflight s = map snd (activeAgents s) @ concat (map contIds (awaiting s))"

text \<open>
  The invariant of the event loop: the keys of the task table are distinct and each is the
  id of its task, every \<open>ready\<close> task has its dependencies completed, and so has every
  task in flight (the retry path of \<open>markFailed\<close> makes such a task \<open>ready\<close> without
  looking at its dependencies). \<open>settled\<close>: no \<open>pending\<close> task has all its dependencies
  completed. \<open>graphExt\<close>: the completed set has grown and every task is still there
  with the same dependencies.
\<close>

definition dispatchInv :: "orch \<Rightarrow> bool" where
  "dispatchInv s \<longleftrightarrow>
     distinct (map fst (tasks s))
     \<and> (\<forall>i t. map_of (tasks s) i = Some t \<longrightarrow>
           task_id t = i \<and> (status t = Ready \<longrightarrow> depsComplete (completed s) t))
     \<and> list_all (satisfied s) (inflight s)"

definition settled :: "orch \<Rightarrow> bool" where
  "settled s \<longleftrightarrow> (\<forall>i t. map_of (tasks s) i = Some t \<longrightarrow> status t = Pending \<longrightarrow> \<not> depsComplete (completed s) t)"

definition graphExt :: "orch \<Rightarrow> orch \<Rightarrow> bool" where
  "graphExt s s' \<longleftrightarrow> completed s \<subseteq> completed s'
     \<and> (\<forall>i t. map_of (tasks s) i = Some t \<longrightarrow>
            (\<exists>t'. map_of (tasks s') i = Some t' \<and> dependsOn t' = dependsOn t))"

text \<open>
  Task ids are unique within a run: a load is well formed when its ids are distinct and
  none of them is in the table. \<open>runLoaded\<close> is \<open>run\<close> restricted to such loads.
\<close>

fun wellFormed :: "action \<Rightarrow> orch \<Rightarrow> bool" where
  "wellFormed (LoadTasks inputs) s =
     (distinct (map task_id inputs) \<and> list_all (\<lambda>i. map_of (tasks s) (task_id i) = None) inputs)"
| "wellFormed _ s = True"

fun runLoaded :: "action list \<Rightarrow> orch \<Rightarrow> orch option" where
  "runLoaded [] s = Some s"
| "runLoaded (a # as) s =
     (if wellFormed a s then (case step a s of None \<Rightarrow> None | Some s' \<Rightarrow> runLoaded as s') else None)"

text \<open>The bound \<open>task.retries ?? maxRetries\<close> that the orchestrator's calls of
  \<open>markFailed\<close> compare \<open>attempts\<close> with.\<close>

definition retryBound :: "Task \<Rightarrow> int" where
  "retryBound t = (case retries t of Some r \<Rightarrow> r | None \<Rightarrow> defaultMaxRetries)"


text \<open>How often \<open>allComplete\<close> has been emitted; and the relation between the states
  before and after an operation that emits it at most once, and only with every task
  \<open>completed\<close> or \<open>failed\<close>.\<close>

definition emitted :: "orch \<Rightarrow> nat" where
  "emitted s = count_list (trace s) AllComplete"

definition emitsWhenDone :: "orch \<Rightarrow> orch \<Rightarrow> bool" where
  "emitsWhenDone s s' \<longleftrightarrow> emitted s' = emitted s \<or> (emitted s' = Suc (emitted s) \<and> allDone s')"

definition retryActions :: "action list" where
  "retryActions =
     [LoadTasks [mkInput ''A'' [] 0 None False, mkInput ''B'' [''A''] 0 None False],
      Start, SaveResolved 0, CreateResolved 0 ''a1'', SaveResolved 0, SigFailed ''a1'' None]"

definition retryState :: orch where
  "retryState = (case runLoaded retryActions (init 1) of Some s \<Rightarrow> s | None \<Rightarrow> init 1)"

text \<open>
  A task is only promoted when it is unchanged or has gone from \<open>pending\<close> to \<open>ready\<close>;
  \<open>othersPromoted X\<close>: every task whose id is outside \<open>X\<close> is still in the table and is
  only promoted. \<open>loadedIds\<close>: the ids an action loads.
\<close>

definition onlyPromoted :: "Task \<Rightarrow> Task \<Rightarrow> bool" where
  "onlyPromoted t t' \<longleftrightarrow> t' = t \<or> (status t = Pending \<and> t' = t\<lparr>status := Ready\<rparr>)"

definition othersPromoted :: "string set \<Rightarrow> orch \<Rightarrow> orch \<Rightarrow> bool" where
  "othersPromoted X s s' \<longleftrightarrow>
     (\<forall>j t. j \<notin> X \<longrightarrow> map_of (tasks s) j = Some t \<longrightarrow>
        (\<exists>t'. map_of (tasks s') j = Some t' \<and> onlyPromoted t t'))"

fun loadedIds :: "action \<Rightarrow> string set" where
  "loadedIds (LoadTasks inputs) = task_id ` set inputs"
| "loadedIds _ = {}"

text \<open>
  More example states. \<open>dependentWaiting\<close>: \<open>A\<close> runs as agent \<open>a1\<close>, \<open>B\<close> waits for \<open>A\<close>.
  \<open>emptyIdRunning\<close>: a task whose id is the empty string runs as agent \<open>a1\<close>.
  \<open>completedUnbound\<close>: the agent of \<open>A\<close> has completed and its handle is unbound.
\<close>

definition dependentWaiting :: orch where
  "dependentWaiting =
     (case runLoaded [LoadTasks [mkInput ''A'' [] 0 None False, mkInput ''B'' [''A''] 0 None False],
                Start, SaveResolved 0, CreateResolved 0 ''a1'', SaveResolved 0] (init 1) of
        Some s \<Rightarrow> s | None \<Rightarrow> init 1)"


definition completedUnbound :: orch where
  "completedUnbound = handleAgentComplete ''a1'' noResult oneRunning"

section \<open>Which fields each operation leaves alone\<close>

lemma logEvent_fields [simp]:
  "tasks (logEvent e s) = tasks s" "completed (logEvent e s) = completed s"
  "activeAgents (logEvent e s) = activeAgents s" "timeouts (logEvent e s) = timeouts s"
  "timers (logEvent e s) = timers s" "nextTimer (logEvent e s) = nextTimer s"
  "isRunning (logEvent e s) = isRunning s" "maxConcurrent (logEvent e s) = maxConcurrent s"
  "awaiting (logEvent e s) = awaiting s" "trace (logEvent e s) = e # trace s"
  by (simp_all add: logEvent_def)

lemma setTask_fields [simp]:
  "tasks (setTask i t s) = AList.update i t (tasks s)" "completed (setTask i t s) = completed s"
  "activeAgents (setTask i t s) = activeAgents s" "timeouts (setTask i t s) = timeouts s"
  "timers (setTask i t s) = timers s" "nextTimer (setTask i t s) = nextTimer s"
  "isRunning (setTask i t s) = isRunning s" "maxConcurrent (setTask i t s) = maxConcurrent s"
  "awaiting (setTask i t s) = awaiting s" "trace (setTask i t s) = trace s"
  by (simp_all add: setTask_def)

lemma clearTimeout_fields [simp]:
  "tasks (clearTimeout a s) = tasks s" "completed (clearTimeout a s) = completed s"
  "activeAgents (clearTimeout a s) = activeAgents s"
  "nextTimer (clearTimeout a s) = nextTimer s"
  "isRunning (clearTimeout a s) = isRunning s" "maxConcurrent (clearTimeout a s) = maxConcurrent s"
  "awaiting (clearTimeout a s) = awaiting s" "trace (clearTimeout a s) = trace s"
  by (simp_all add: clearTimeout_def split: option.splits)

lemma clearAllTimeouts_fields [simp]:
  "tasks (clearAllTimeouts s) = tasks s" "completed (clearAllTimeouts s) = completed s"
  "activeAgents (clearAllTimeouts s) = activeAgents s"
  "timeouts (clearAllTimeouts s) = []"
  "nextTimer (clearAllTimeouts s) = nextTimer s"
  "isRunning (clearAllTimeouts s) = isRunning s" "maxConcurrent (clearAllTimeouts s) = maxConcurrent s"
  "awaiting (clearAllTimeouts s) = awaiting s" "trace (clearAllTimeouts s) = trace s"
  by (simp_all add: clearAllTimeouts_def)

lemma dispatchLoop_fields [simp]:
  "tasks (dispatchLoop b s) = tasks s" "completed (dispatchLoop b s) = completed s"
  "activeAgents (dispatchLoop b s) = activeAgents s" "timeouts (dispatchLoop b s) = timeouts s"
  "timers (dispatchLoop b s) = timers s" "nextTimer (dispatchLoop b s) = nextTimer s"
  "isRunning (dispatchLoop b s) = isRunning s" "maxConcurrent (dispatchLoop b s) = maxConcurrent s"
  by (cases b; simp)+

lemma trySpawnAgents_fields [simp]:
  "tasks (trySpawnAgents s) = tasks s" "completed (trySpawnAgents s) = completed s"
  "activeAgents (trySpawnAgents s) = activeAgents s" "timeouts (trySpawnAgents s) = timeouts s"
  "timers (trySpawnAgents s) = timers s" "nextTimer (trySpawnAgents s) = nextTimer s"
  "isRunning (trySpawnAgents s) = isRunning s" "maxConcurrent (trySpawnAgents s) = maxConcurrent s"
  by (simp_all add: trySpawnAgents_def Let_def)

lemma readyStep_fields [simp]:
  "completed (readyStep i s) = completed s"
  "activeAgents (readyStep i s) = activeAgents s" "timeouts (readyStep i s) = timeouts s"
  "timers (readyStep i s) = timers s" "nextTimer (readyStep i s) = nextTimer s"
  "isRunning (readyStep i s) = isRunning s" "maxConcurrent (readyStep i s) = maxConcurrent s"
  by (simp_all add: readyStep_def split: option.splits)

lemma fold_readyStep_fields [simp]:
  "completed (fold readyStep ks s) = completed s"
  "activeAgents (fold readyStep ks s) = activeAgents s" "timeouts (fold readyStep ks s) = timeouts s"
  "timers (fold readyStep ks s) = timers s" "nextTimer (fold readyStep ks s) = nextTimer s"
  "isRunning (fold readyStep ks s) = isRunning s" "maxConcurrent (fold readyStep ks s) = maxConcurrent s"
  by (induction ks arbitrary: s; simp)+

lemma updateReadyTasks_fields [simp]:
  "completed (updateReadyTasks s) = completed s"
  "activeAgents (updateReadyTasks s) = activeAgents s" "timeouts (updateReadyTasks s) = timeouts s"
  "timers (updateReadyTasks s) = timers s" "nextTimer (updateReadyTasks s) = nextTimer s"
  "isRunning (updateReadyTasks s) = isRunning s" "maxConcurrent (updateReadyTasks s) = maxConcurrent s"
  by (simp_all add: updateReadyTasks_def)

lemma onAllComplete_fields [simp]:
  "tasks (onAllComplete s) = tasks s" "completed (onAllComplete s) = completed s"
  "activeAgents (onAllComplete s) = activeAgents s" "timeouts (onAllComplete s) = []"
  "nextTimer (onAllComplete s) = nextTimer s"
  "isRunning (onAllComplete s) = False" "maxConcurrent (onAllComplete s) = maxConcurrent s"
  "awaiting (onAllComplete s) = awaiting s"
  by (simp_all add: onAllComplete_def)

lemma checkAllComplete_fields [simp]:
  "tasks (checkAllComplete s) = tasks s" "completed (checkAllComplete s) = completed s"
  "activeAgents (checkAllComplete s) = activeAgents s"
  "nextTimer (checkAllComplete s) = nextTimer s"
  "maxConcurrent (checkAllComplete s) = maxConcurrent s"
  "awaiting (checkAllComplete s) = awaiting s"
  by (simp_all add: checkAllComplete_def)

lemma markRunning_fields [simp]:
  "completed (markRunning i a s) = completed s"
  "activeAgents (markRunning i a s) = activeAgents s" "timeouts (markRunning i a s) = timeouts s"
  "timers (markRunning i a s) = timers s" "nextTimer (markRunning i a s) = nextTimer s"
  "isRunning (markRunning i a s) = isRunning s" "maxConcurrent (markRunning i a s) = maxConcurrent s"
  "awaiting (markRunning i a s) = awaiting s"
  by (simp_all add: markRunning_def split: option.splits)

lemma markCompleted_fields [simp]:
  "activeAgents (markCompleted i r c s) = activeAgents s"
  "nextTimer (markCompleted i r c s) = nextTimer s"
  "maxConcurrent (markCompleted i r c s) = maxConcurrent s"
  by (simp_all add: markCompleted_def Let_def split: option.splits)

lemma markFailed_fields [simp]:
  "completed (markFailed i e m s) = completed s"
  "activeAgents (markFailed i e m s) = activeAgents s"
  "nextTimer (markFailed i e m s) = nextTimer s"
  "maxConcurrent (markFailed i e m s) = maxConcurrent s"
  "awaiting (markFailed i e m s) = awaiting s"
  by (simp_all add: markFailed_def split: option.splits)

lemma unbind_fields [simp]:
  "tasks (unbind a s) = tasks s" "completed (unbind a s) = completed s"
  "activeAgents (unbind a s) = AList.delete a (activeAgents s)"
  "timeouts (unbind a s) = timeouts s" "timers (unbind a s) = timers s"
  "nextTimer (unbind a s) = nextTimer s" "isRunning (unbind a s) = isRunning s"
  "maxConcurrent (unbind a s) = maxConcurrent s" "trace (unbind a s) = trace s"
  by (simp_all add: unbind_def)

lemma stopLoop_fields [simp]:
  "tasks (stopLoop n s) = tasks s" "completed (stopLoop n s) = completed s"
  "activeAgents (stopLoop n s) = activeAgents s" "timeouts (stopLoop n s) = timeouts s"
  "timers (stopLoop n s) = timers s" "nextTimer (stopLoop n s) = nextTimer s"
  "isRunning (stopLoop n s) = isRunning s" "maxConcurrent (stopLoop n s) = maxConcurrent s"
  by (simp_all add: stopLoop_def)

lemma contIds_iterAfterDelete [simp]: "contIds (iterAfterDelete j c) = contIds c"
  by (cases c) (simp_all add: iterAfterDelete_def contIds_def)

section \<open>Resolution of a handle\<close>

lemma truthy_None [simp]: "truthy None = False"
  by (simp add: truthy_def)

lemma truthy_Some [simp]: "truthy (Some v) = (v \<noteq> [])"
  by (simp add: truthy_def)

lemma handleAgentComplete_unbound:
  "map_of (activeAgents s) a = None \<Longrightarrow> handleAgentComplete a r s = s"
  by (simp add: handleAgentComplete_def)

lemma handleAgentFailed_unbound:
  "map_of (activeAgents s) a = None \<Longrightarrow> handleAgentFailed a e s = s"
  by (simp add: handleAgentFailed_def)

lemma timeoutCallback_unbound:
  "map_of (activeAgents s) a = None \<Longrightarrow> timeoutCallback a s = s"
  by (simp add: timeoutCallback_def)

lemma map_of_delete_same [simp]: "map_of (AList.delete a xs) a = None"
  by (simp add: AList.delete_conv)

lemma handleAgentComplete_unbinds:
  "map_of (activeAgents s) a = Some t \<Longrightarrow> t \<noteq> [] \<Longrightarrow>
   map_of (activeAgents (handleAgentComplete a r s)) a = None"
  by (simp add: handleAgentComplete_def Let_def)

lemma handleAgentFailed_unbinds:
  "map_of (activeAgents s) a = Some t \<Longrightarrow> t \<noteq> [] \<Longrightarrow>
   map_of (activeAgents (handleAgentFailed a e s)) a = None"
  by (simp add: handleAgentFailed_def Let_def)

lemma timeoutCallback_unbinds:
  "map_of (activeAgents s) a = Some t \<Longrightarrow> t \<noteq> [] \<Longrightarrow>
   map_of (activeAgents (timeoutCallback a s)) a = None"
  by (simp add: timeoutCallback_def handleAgentFailed_unbinds)

lemma oneRunning_bound:
  "map_of (activeAgents oneRunning) ''a1'' = Some ''A''"
  by code_simp

text \<open>
  C5: once one resolution handler for a handle (completion, failure or cancellation, or
  the timer callback) has run and the handle has no binding any more, a second
  resolution handler for the same handle leaves the whole state as it is: no task
  status, no binding and no timer changes, whichever of the handlers ran first.
\<close>

theorem second_resolution_is_noop:
  assumes "first \<in> {handleAgentComplete a r1, handleAgentFailed a e1, timeoutCallback a}"
      and "second \<in> {handleAgentComplete a r2, handleAgentFailed a e2, timeoutCallback a}"
      and "map_of (activeAgents (first s)) a = None"
  shows "second (first s) = first s"
  using assms(2,3)
  by (auto simp: handleAgentComplete_unbound handleAgentFailed_unbound timeoutCallback_unbound)

theorem second_resolution_is_noop_witness:
  "map_of (activeAgents (handleAgentComplete ''a1'' noResult oneRunning)) ''a1'' = None
   \<and> handleAgentFailed ''a1'' ''late'' (handleAgentComplete ''a1'' noResult oneRunning)
       = handleAgentComplete ''a1'' noResult oneRunning"
proof -
  have gone: "map_of (activeAgents (handleAgentComplete ''a1'' noResult oneRunning)) ''a1'' = None"
    by (rule handleAgentComplete_unbinds [OF oneRunning_bound]) simp
  from second_resolution_is_noop [of "handleAgentComplete ''a1'' noResult" "''a1''" noResult
      "''x''" "handleAgentFailed ''a1'' ''late''" noResult "''late''" oneRunning] gone
  show ?thesis by simp
qed

section \<open>Order of the ready tasks\<close>

lemma mset_insert_by [simp]: "mset (insert_by cmp x ys) = add_mset x (mset ys)"
  by (induction ys) auto

lemma set_insert_by [simp]: "set (insert_by cmp x ys) = insert x (set ys)"
  by (induction ys) auto

lemma sorted_insert_by:
  "sorted_wrt (\<lambda>a b. f b \<le> f a) ys \<Longrightarrow>
   sorted_wrt (\<lambda>a b. f b \<le> f a) (insert_by (\<lambda>a b. f b - f a) x ys)"
  for f :: "'a \<Rightarrow> int"
  by (induction ys) auto

lemma filter_insert_by:
  "filter (\<lambda>t. f t = p) (insert_by (\<lambda>a b. f b - f a) x ys) =
   (if f x = p then x # filter (\<lambda>t. f t = p) ys else filter (\<lambda>t. f t = p) ys)"
  for f :: "'a \<Rightarrow> int"
  by (induction ys) auto

lemma mset_js_sort [simp]: "mset (js_sort cmp xs) = mset xs"
  by (induction xs) (simp_all add: js_sort_def)

lemma sorted_js_sort:
  "sorted_wrt (\<lambda>a b. f b \<le> f a) (js_sort (\<lambda>a b. f b - f a) xs)" for f :: "'a \<Rightarrow> int"
  by (induction xs) (simp_all add: js_sort_def sorted_insert_by)

lemma filter_js_sort:
  "filter (\<lambda>t. f t = p) (js_sort (\<lambda>a b. f b - f a) xs) = filter (\<lambda>t. f t = p) xs"
  for f :: "'a \<Rightarrow> int"
  by (induction xs) (simp_all add: js_sort_def filter_insert_by)

text \<open>
  C9: \<open>getReadyTasks\<close> returns exactly the tasks whose status is \<open>ready\<close>, by descending
  priority, and the tasks of one priority come in the order in which they stand in the
  task table, which is the order of insertion.
\<close>

theorem getReadyTasks_order:
  "mset (getReadyTasks s) = mset (filter (\<lambda>t. status t = Ready) (map snd (tasks s)))
   \<and> sorted_wrt (\<lambda>a b. priority b \<le> priority a) (getReadyTasks s)
   \<and> (\<forall>p. filter (\<lambda>t. priority t = p) (getReadyTasks s) =
            filter (\<lambda>t. priority t = p) (filter (\<lambda>t. status t = Ready) (map snd (tasks s))))"
  unfolding getReadyTasks_def
  by (simp add: sorted_js_sort filter_js_sort)

section \<open>The readiness scan\<close>

lemma keys_update_existing:
  "map_of al k = Some v0 \<Longrightarrow> map fst (AList.update k v al) = map fst al"
  by (simp add: update_keys) (metis map_of_eq_None_iff option.distinct(1))

lemma status_promote:
  "status (promote c t) = (if status t = Pending \<and> depsComplete c t then Ready else status t)"
  by (simp add: promote_def)

lemma promote_fields [simp]:
  "dependsOn (promote c t) = dependsOn t" "task_id (promote c t) = task_id t"
  "attempts (promote c t) = attempts t"
  by (simp_all add: promote_def)

lemma depsComplete_promote [simp]: "depsComplete c' (promote c t) = depsComplete c' t"
  by (simp add: depsComplete_def)

lemma promote_idem [simp]: "promote c (promote c t) = promote c t"
  by (simp add: promote_def depsComplete_def)

lemma readyStep_lookup:
  "map_of (tasks (readyStep k s)) i =
     (if i = k then map_option (promote (completed s)) (map_of (tasks s) i) else map_of (tasks s) i)"
  by (cases "map_of (tasks s) k") (auto simp: readyStep_def promote_def update_conv')

lemma fold_readyStep_lookup:
  "map_of (tasks (fold readyStep ks s)) i =
     (if i \<in> set ks then map_option (promote (completed s)) (map_of (tasks s) i)
      else map_of (tasks s) i)"
proof (induction ks arbitrary: s)
  case Nil
  then show ?case by simp
next
  case (Cons k ks)
  show ?case
    by (cases "map_of (tasks s) i") (auto simp: Cons.IH readyStep_lookup)
qed

lemma updateReadyTasks_lookup:
  "map_of (tasks (updateReadyTasks s)) i = map_option (promote (completed s)) (map_of (tasks s) i)"
proof (cases "map_of (tasks s) i")
  case None
  then show ?thesis by (simp add: updateReadyTasks_def fold_readyStep_lookup)
next
  case (Some t)
  then have "i \<in> set (map fst (tasks s))"
    by (metis map_of_eq_None_iff option.distinct(1) set_map)
  then show ?thesis by (simp add: updateReadyTasks_def fold_readyStep_lookup)
qed

lemma keys_readyStep [simp]: "map fst (tasks (readyStep k s)) = map fst (tasks s)"
  by (cases "map_of (tasks s) k") (auto simp: readyStep_def keys_update_existing)

lemma keys_fold_readyStep [simp]: "map fst (tasks (fold readyStep ks s)) = map fst (tasks s)"
  by (induction ks arbitrary: s) simp_all

lemma keys_updateReadyTasks [simp]: "map fst (tasks (updateReadyTasks s)) = map fst (tasks s)"
  by (simp add: updateReadyTasks_def)

lemma settled_updateReadyTasks: "settled (updateReadyTasks s)"
  unfolding settled_def
proof (intro allI impI)
  fix i t
  assume "map_of (tasks (updateReadyTasks s)) i = Some t" and p: "status t = Pending"
  then obtain t0 where t: "t = promote (completed s) t0"
    by (auto simp: updateReadyTasks_lookup)
  with p have "\<not> depsComplete (completed s) t0"
    by (auto simp: status_promote split: if_splits)
  with t show "\<not> depsComplete (completed (updateReadyTasks s)) t" by simp
qed

section \<open>Preservation of the invariant by the queue operations\<close>

lemma depsComplete_mono: "depsComplete c t \<Longrightarrow> c \<subseteq> c' \<Longrightarrow> depsComplete c' t"
  by (auto simp: depsComplete_def list_all_iff)

lemma depsComplete_cong: "dependsOn t' = dependsOn t \<Longrightarrow> depsComplete c t' = depsComplete c t"
  by (simp add: depsComplete_def)

lemma graphExt_refl [simp]: "graphExt s s"
  by (simp add: graphExt_def)

lemma graphExt_trans:
  assumes "graphExt s s'" and "graphExt s' s''"
  shows "graphExt s s''"
  unfolding graphExt_def
proof (intro conjI allI impI)
  show "completed s \<subseteq> completed s''"
    using assms by (simp add: graphExt_def) blast
  fix i t assume "map_of (tasks s) i = Some t"
  with assms(1) obtain t' where "map_of (tasks s') i = Some t'" "dependsOn t' = dependsOn t"
    unfolding graphExt_def by blast
  moreover with assms(2) obtain t'' where "map_of (tasks s'') i = Some t''" "dependsOn t'' = dependsOn t'"
    unfolding graphExt_def by blast
  ultimately show "\<exists>t'. map_of (tasks s'') i = Some t' \<and> dependsOn t' = dependsOn t"
    by simp
qed

lemma graphExt_frame: "tasks s' = tasks s \<Longrightarrow> completed s' = completed s \<Longrightarrow> graphExt s s'"
  by (simp add: graphExt_def)

lemma satisfied_ext:
  assumes "satisfied s i" and "graphExt s s'"
  shows "satisfied s' i"
proof -
  from assms(1) obtain t where t: "map_of (tasks s) i = Some t" "depsComplete (completed s) t"
    by (auto simp: satisfied_def split: option.splits)
  with assms(2) obtain t' where t': "map_of (tasks s') i = Some t'" "dependsOn t' = dependsOn t"
    unfolding graphExt_def by blast
  from assms(2) have "completed s \<subseteq> completed s'" by (simp add: graphExt_def)
  with t(2) have "depsComplete (completed s') t" by (rule depsComplete_mono)
  with t' show ?thesis by (simp add: satisfied_def depsComplete_def)
qed

lemma satisfied_frame:
  "tasks s' = tasks s \<Longrightarrow> completed s' = completed s \<Longrightarrow> satisfied s' i = satisfied s i"
  by (simp add: satisfied_def split: option.splits)

lemma dispatchInv_inflight:
  assumes "dispatchInv s" and "tasks s' = tasks s" and "completed s' = completed s"
      and "\<And>i. i \<in> set (inflight s') \<Longrightarrow> i \<in> set (inflight s) \<or> satisfied s i"
  shows "dispatchInv s'"
proof -
  have "list_all (satisfied s') (inflight s')"
    unfolding list_all_iff
  proof
    fix i assume "i \<in> set (inflight s')"
    with assms(1,4) have "satisfied s i"
      by (auto simp: dispatchInv_def list_all_iff)
    then show "satisfied s' i" by (simp only: satisfied_frame [OF assms(2,3)])
  qed
  with assms(1,2,3) show ?thesis by (simp add: dispatchInv_def)
qed

lemma inflight_cong:
  "activeAgents s' = activeAgents s \<Longrightarrow> awaiting s' = awaiting s \<Longrightarrow> inflight s' = inflight s"
  by (simp add: inflight_def)

lemma dispatchInv_frame:
  "dispatchInv s \<Longrightarrow> tasks s' = tasks s \<Longrightarrow> completed s' = completed s \<Longrightarrow>
   activeAgents s' = activeAgents s \<Longrightarrow> awaiting s' = awaiting s \<Longrightarrow> dispatchInv s'"
proof -
  assume a: "dispatchInv s" "tasks s' = tasks s" "completed s' = completed s"
    "activeAgents s' = activeAgents s" "awaiting s' = awaiting s"
  have "satisfied s' = satisfied s"
    by (simp add: fun_eq_iff satisfied_def a split: option.splits)
  with a show ?thesis by (simp add: dispatchInv_def inflight_def)
qed

lemma dispatchInv_satisfied: "dispatchInv s \<Longrightarrow> i \<in> set (inflight s) \<Longrightarrow> satisfied s i"
  by (simp add: dispatchInv_def list_all_iff)

lemma graphExt_setTask:
  "map_of (tasks s) i = Some t \<Longrightarrow> dependsOn t' = dependsOn t \<Longrightarrow> graphExt s (setTask i t' s)"
  by (auto simp: graphExt_def update_conv')

lemma graphExt_setTask_new:
  "map_of (tasks s) i = None \<Longrightarrow> graphExt s (setTask i t' s)"
  by (auto simp: graphExt_def update_conv')

lemma graphExt_completed: "c \<subseteq> c' \<Longrightarrow> completed s = c \<Longrightarrow> graphExt s (s\<lparr>completed := c'\<rparr>)"
  by (auto simp: graphExt_def)

lemma dispatchInv_ext:
  assumes inv: "dispatchInv s" and ext: "graphExt s s'"
      and keys: "distinct (map fst (tasks s'))"
      and tasks: "\<And>i t. map_of (tasks s') i = Some t \<Longrightarrow>
                    task_id t = i \<and> (status t = Ready \<longrightarrow> depsComplete (completed s') t)"
      and fl: "\<And>i. i \<in> set (inflight s') \<Longrightarrow> i \<in> set (inflight s) \<or> satisfied s i"
  shows "dispatchInv s'"
proof -
  have "list_all (satisfied s') (inflight s')"
    unfolding list_all_iff
  proof
    fix i assume "i \<in> set (inflight s')"
    with inv fl have "satisfied s i"
      by (auto simp: dispatchInv_def list_all_iff)
    then show "satisfied s' i" using ext by (rule satisfied_ext)
  qed
  then show ?thesis
    unfolding dispatchInv_def using keys tasks by (intro conjI allI impI) simp_all
qed

lemma dispatchInv_setTask:
  assumes inv: "dispatchInv s" and t: "map_of (tasks s) i = Some t"
      and same: "task_id t' = task_id t" "dependsOn t' = dependsOn t"
      and ready: "status t' = Ready \<Longrightarrow> depsComplete (completed s) t"
  shows "dispatchInv (setTask i t' s)"
proof (rule dispatchInv_ext [OF inv])
  show "graphExt s (setTask i t' s)" using t same(2) by (rule graphExt_setTask)
  show "distinct (map fst (tasks (setTask i t' s)))"
    using inv by (simp add: dispatchInv_def distinct_update)
  show "task_id u = j \<and> (status u = Ready \<longrightarrow> depsComplete (completed (setTask i t' s)) u)"
    if "map_of (tasks (setTask i t' s)) j = Some u" for j u
  proof (cases "j = i")
    case True
    with that have "u = t'" by (simp add: update_conv')
    moreover from inv t have "task_id t = i" by (simp add: dispatchInv_def)
    ultimately show ?thesis using True same ready by (simp add: depsComplete_def)
  next
    case False
    with that have "map_of (tasks s) j = Some u" by (simp add: update_conv')
    with inv show ?thesis by (simp add: dispatchInv_def)
  qed
  show "i' \<in> set (inflight s) \<or> satisfied s i'" if "i' \<in> set (inflight (setTask i t' s))" for i'
    using that by (simp add: inflight_def)
qed

lemma dispatchInv_completed:
  assumes inv: "dispatchInv s" and sub: "completed s \<subseteq> c'"
  shows "dispatchInv (s\<lparr>completed := c'\<rparr>)"
proof (rule dispatchInv_ext [OF inv])
  show "graphExt s (s\<lparr>completed := c'\<rparr>)" using sub by (simp add: graphExt_def)
  show "distinct (map fst (tasks (s\<lparr>completed := c'\<rparr>)))" using inv by (simp add: dispatchInv_def)
  show "task_id u = j \<and> (status u = Ready \<longrightarrow> depsComplete (completed (s\<lparr>completed := c'\<rparr>)) u)"
    if "map_of (tasks (s\<lparr>completed := c'\<rparr>)) j = Some u" for j u
  proof -
    from that have u: "map_of (tasks s) j = Some u" by simp
    with inv have "task_id u = j" and r: "status u = Ready \<longrightarrow> depsComplete (completed s) u"
      by (simp_all add: dispatchInv_def)
    moreover have "depsComplete (completed s) u \<Longrightarrow> depsComplete c' u"
      using sub by (rule depsComplete_mono [rotated])
    ultimately show ?thesis by simp
  qed
  show "i' \<in> set (inflight s) \<or> satisfied s i'" if "i' \<in> set (inflight (s\<lparr>completed := c'\<rparr>))" for i'
    using that by (simp add: inflight_def)
qed

lemma dispatchInv_dispatchLoop:
  assumes "dispatchInv s" and "list_all (satisfied s) b"
  shows "dispatchInv (dispatchLoop b s)"
proof (cases b)
  case Nil
  with assms show ?thesis by simp
next
  case (Cons t rest)
  show ?thesis
  proof (rule dispatchInv_inflight [OF assms(1)])
    show "i \<in> set (inflight s) \<or> satisfied s i" if "i \<in> set (inflight (dispatchLoop b s))" for i
      using that assms(2) Cons by (auto simp: inflight_def contIds_def list_all_iff)
  qed (simp_all add: Cons)
qed

lemma set_js_sort [simp]: "set (js_sort cmp xs) = set xs"
  by (metis mset_js_sort set_mset_mset)

lemma ready_satisfied:
  assumes inv: "dispatchInv s" and t: "t \<in> set (getReadyTasks s)"
  shows "satisfied s (task_id t)"
proof -
  from t obtain k where k: "(k, t) \<in> set (tasks s)" and r: "status t = Ready"
    by (auto simp: getReadyTasks_def)
  from inv k have "map_of (tasks s) k = Some t" by (simp add: dispatchInv_def)
  with inv r show ?thesis by (auto simp: dispatchInv_def satisfied_def)
qed

lemma dispatchInv_trySpawnAgents:
  assumes "dispatchInv s"
  shows "dispatchInv (trySpawnAgents s)"
proof -
  have "list_all (satisfied s) (map task_id (take n (getReadyTasks s)))" for n
    using assms by (auto simp: list_all_iff dest: in_set_takeD intro: ready_satisfied)
  with assms show ?thesis
    by (simp add: trySpawnAgents_def Let_def dispatchInv_dispatchLoop)
qed

lemma dispatchInv_logEvent: "dispatchInv s \<Longrightarrow> dispatchInv (logEvent e s)"
  by (erule dispatchInv_frame) simp_all

lemma dispatchInv_readyStep: "dispatchInv s \<Longrightarrow> dispatchInv (readyStep k s)"
  unfolding readyStep_def
  by (auto split: option.splits
      intro!: dispatchInv_trySpawnAgents dispatchInv_logEvent dispatchInv_setTask)

lemma dispatchInv_fold_readyStep: "dispatchInv s \<Longrightarrow> dispatchInv (fold readyStep ks s)"
  by (induction ks arbitrary: s) (simp_all add: dispatchInv_readyStep)

lemma dispatchInv_updateReadyTasks: "dispatchInv s \<Longrightarrow> dispatchInv (updateReadyTasks s)"
  by (simp add: updateReadyTasks_def dispatchInv_fold_readyStep)

lemma dispatchInv_checkAllComplete: "dispatchInv s \<Longrightarrow> dispatchInv (checkAllComplete s)"
  by (erule dispatchInv_frame) simp_all

lemma dispatchInv_markRunning: "dispatchInv s \<Longrightarrow> dispatchInv (markRunning i a s)"
  unfolding markRunning_def
  by (auto split: option.splits intro!: dispatchInv_logEvent dispatchInv_setTask)

lemma dispatchInv_markCompleted: "dispatchInv s \<Longrightarrow> dispatchInv (markCompleted i r c s)"
  unfolding markCompleted_def Let_def
  by (auto split: option.splits
      intro!: dispatchInv_checkAllComplete dispatchInv_updateReadyTasks dispatchInv_logEvent
        dispatchInv_completed dispatchInv_setTask)

lemma dispatchInv_markFailed:
  "dispatchInv s \<Longrightarrow> (\<And>t. map_of (tasks s) i = Some t \<Longrightarrow> depsComplete (completed s) t) \<Longrightarrow>
   dispatchInv (markFailed i e m s)"
  unfolding markFailed_def
  by (auto split: option.splits
      intro!: dispatchInv_checkAllComplete dispatchInv_logEvent dispatchInv_setTask)

section \<open>Preservation of the invariant by the steps of the event loop\<close>

lemma lookup_markRunning:
  "map_of (tasks (markRunning i a s)) j =
     (if j = i then map_option (\<lambda>t. t\<lparr>status := Running, agentId := Some a, attempts := attempts t + 1\<rparr>)
                      (map_of (tasks s) i)
      else map_of (tasks s) j)"
  by (cases "map_of (tasks s) i") (auto simp: markRunning_def update_conv')

lemma lookup_markFailed:
  "map_of (tasks (markFailed i e m s)) j =
     (if j = i then
        map_option (\<lambda>t. t\<lparr>status := (if attempts t < (case retries t of Some r \<Rightarrow> r | None \<Rightarrow> m)
                                         then Ready else Failed),
                             error := Some e\<rparr>) (map_of (tasks s) i)
      else map_of (tasks s) j)"
  by (cases "map_of (tasks s) i") (auto simp: markFailed_def update_conv')

lemma lookup_markCompleted:
  "map_of (tasks (markCompleted i r c s)) j =
     (case map_of (tasks s) i of
        None \<Rightarrow> map_of (tasks s) j
      | Some t \<Rightarrow> map_option (promote (insert i (completed s)))
                    (if j = i then Some (t\<lparr>status := Completed, result := Some r\<rparr>)
                     else map_of (tasks s) j))"
  by (cases "map_of (tasks s) i")
     (auto simp: markCompleted_def Let_def updateReadyTasks_lookup update_conv')


lemma graphExt_markRunning: "graphExt s (markRunning i a s)"
  by (auto simp: graphExt_def lookup_markRunning)

lemma graphExt_markFailed: "graphExt s (markFailed i e m s)"
  by (auto simp: graphExt_def lookup_markFailed)

lemma nth_opt_mem: "nth_opt xs k = Some c \<Longrightarrow> c \<in> set xs"
  by (auto simp: nth_opt_def split: if_splits)

lemma resume_fields [simp]:
  "tasks (resume k s) = tasks s" "completed (resume k s) = completed s"
  "activeAgents (resume k s) = activeAgents s" "timeouts (resume k s) = timeouts s"
  "timers (resume k s) = timers s" "nextTimer (resume k s) = nextTimer s"
  "isRunning (resume k s) = isRunning s" "maxConcurrent (resume k s) = maxConcurrent s"
  "trace (resume k s) = trace s"
  "awaiting (resume k s) = take k (awaiting s) @ drop (Suc k) (awaiting s)"
  by (simp_all add: resume_def)

lemma dispatchInv_resume: "dispatchInv s \<Longrightarrow> dispatchInv (resume k s)"
proof (erule dispatchInv_inflight)
  show "i \<in> set (inflight s) \<or> satisfied s i" if "i \<in> set (inflight (resume k s))" for i
    using that by (auto simp: inflight_def dest: in_set_takeD in_set_dropD)
qed simp_all

lemma dispatchInv_unbind:
  "dispatchInv s \<Longrightarrow> dispatchInv (unbind a s)"
proof (erule dispatchInv_inflight)
  show "i \<in> set (inflight s) \<or> satisfied s i" if "i \<in> set (inflight (unbind a s))" for i
    using that by (auto simp: inflight_def unbind_def AList.delete_eq)
qed simp_all

lemma dispatchInv_clearTimeout: "dispatchInv s \<Longrightarrow> dispatchInv (clearTimeout a s)"
  by (erule dispatchInv_frame) simp_all

lemma dispatchInv_handleAgentComplete:
  "dispatchInv s \<Longrightarrow> dispatchInv (handleAgentComplete a r s)"
  unfolding handleAgentComplete_def Let_def
  by (auto intro!: dispatchInv_trySpawnAgents dispatchInv_markCompleted dispatchInv_clearTimeout
      dispatchInv_unbind)

lemma bound_satisfied:
  assumes "dispatchInv s" and "map_of (activeAgents s) a = Some i"
  shows "satisfied s i"
proof -
  from assms(2) have "(a, i) \<in> set (activeAgents s)" by (rule map_of_SomeD)
  then have "i \<in> set (inflight s)" by (force simp: inflight_def)
  with assms(1) show ?thesis by (rule dispatchInv_satisfied)
qed

lemma satisfied_deps:
  "satisfied s i \<Longrightarrow> map_of (tasks s) i = Some t \<Longrightarrow> depsComplete (completed s) t"
  by (simp add: satisfied_def)

lemma dispatchInv_handleAgentFailed:
  assumes "dispatchInv s"
  shows "dispatchInv (handleAgentFailed a e s)"
proof (cases "truthy (map_of (activeAgents s) a)")
  case False
  with assms show ?thesis by (simp add: handleAgentFailed_def)
next
  case True
  then obtain i where i: "map_of (activeAgents s) a = Some i"
    by (auto simp: truthy_def split: option.splits)
  define s3 where "s3 = logEvent (StopMonitoring a) (clearTimeout a (unbind a s))"
  have inv3: "dispatchInv s3"
    unfolding s3_def using assms
    by (intro dispatchInv_logEvent dispatchInv_clearTimeout dispatchInv_unbind)
  have "satisfied s i" using assms i by (rule bound_satisfied)
  then have "depsComplete (completed s3) t" if "map_of (tasks s3) i = Some t" for t
    using that by (simp add: s3_def satisfied_def)
  with inv3 have "dispatchInv (markFailed i e defaultMaxRetries s3)"
    by (rule dispatchInv_markFailed)
  then have "dispatchInv (trySpawnAgents (markFailed i e defaultMaxRetries s3))"
    by (rule dispatchInv_trySpawnAgents)
  with True i show ?thesis by (simp add: handleAgentFailed_def Let_def s3_def)
qed

lemma dispatchInv_timeoutCallback: "dispatchInv s \<Longrightarrow> dispatchInv (timeoutCallback a s)"
  by (simp add: timeoutCallback_def dispatchInv_handleAgentFailed dispatchInv_logEvent)

lemma cont_satisfied:
  assumes "dispatchInv s" and "nth_opt (awaiting s) k = Some c" and "i \<in> set (contIds c)"
  shows "satisfied s i"
proof -
  from assms(2) have "c \<in> set (awaiting s)" by (rule nth_opt_mem)
  with assms(3) have "i \<in> set (inflight s)" by (auto simp: inflight_def)
  with assms(1) show ?thesis by (rule dispatchInv_satisfied)
qed

lemma dispatchInv_await:
  assumes "dispatchInv s" and "\<And>i. i \<in> set (contIds c) \<Longrightarrow> satisfied s i"
  shows "dispatchInv (s\<lparr>awaiting := awaiting s @ [c]\<rparr>)"
proof (rule dispatchInv_inflight [OF assms(1)])
  show "i \<in> set (inflight s) \<or> satisfied s i" if "i \<in> set (inflight (s\<lparr>awaiting := awaiting s @ [c]\<rparr>))" for i
    using that assms(2) by (auto simp: inflight_def)
qed simp_all

lemma dispatchInv_bind:
  assumes "dispatchInv s" and "satisfied s t"
  shows "dispatchInv (s\<lparr>activeAgents := AList.update a t (activeAgents s)\<rparr>)"
proof (rule dispatchInv_inflight [OF assms(1)])
  have "set (AList.update a t xs) \<subseteq> insert (a, t) (set xs)" for xs :: "(string \<times> string) list"
    by (induction xs) auto
  then show "i \<in> set (inflight s) \<or> satisfied s i"
    if "i \<in> set (inflight (s\<lparr>activeAgents := AList.update a t (activeAgents s)\<rparr>))" for i
    using that assms(2) by (fastforce simp: inflight_def)
qed simp_all

lemma dispatchInv_spawnAgentBound:
  assumes inv: "dispatchInv s" and t: "satisfied s t" and rest: "\<And>i. i \<in> set rest \<Longrightarrow> satisfied s i"
  shows "dispatchInv (spawnAgentBound t rest a s)"
proof -
  define s1 where "s1 = s\<lparr>activeAgents := AList.update a t (activeAgents s)\<rparr>"
  define s2 where "s2 = markRunning t a s1"
  define s3 where "s3 = logEvent (StartMonitoring a) s2"
  define s4 where "s4 = s3\<lparr>timers := timers s3 @ [(nextTimer s3, a)],
                  timeouts := AList.update a (nextTimer s3) (timeouts s3),
                  nextTimer := Suc (nextTimer s3)\<rparr>"
  define s5 where "s5 = logEvent SaveState (logEvent (AgentSpawned t a) s4)"
  have "dispatchInv s1" unfolding s1_def using inv t by (rule dispatchInv_bind)
  then have "dispatchInv s2" unfolding s2_def by (rule dispatchInv_markRunning)
  then have inv5: "dispatchInv s5"
    by (rule dispatchInv_frame) (simp_all add: s5_def s4_def s3_def)
  have "graphExt s s1" by (simp add: s1_def graphExt_def)
  moreover have "graphExt s1 s2" unfolding s2_def by (rule graphExt_markRunning)
  moreover have "graphExt s2 s5" by (rule graphExt_frame) (simp_all add: s5_def s4_def s3_def)
  ultimately have ext: "graphExt s s5" by (blast intro: graphExt_trans)
  have "satisfied s5 i" if "i \<in> set (contIds (AwaitSave t rest))" for i
    using that t rest ext by (auto simp: contIds_def intro: satisfied_ext)
  with inv5 have "dispatchInv (s5\<lparr>awaiting := awaiting s5 @ [AwaitSave t rest]\<rparr>)"
    by (rule dispatchInv_await)
  then show ?thesis
    by (simp add: spawnAgentBound_def Let_def s5_def s4_def s3_def s2_def s1_def)
qed

lemma dispatchInv_failThenLoop:
  assumes inv: "dispatchInv s" and t: "satisfied s t" and rest: "\<And>i. i \<in> set rest \<Longrightarrow> satisfied s i"
  shows "dispatchInv (dispatchLoop rest (markFailed t e m s))"
proof -
  have "dispatchInv (markFailed t e m s)"
    using inv t by (auto intro: dispatchInv_markFailed simp: satisfied_def)
  moreover have "list_all (satisfied (markFailed t e m s)) rest"
    using rest by (auto simp: list_all_iff intro: satisfied_ext graphExt_markFailed)
  ultimately show ?thesis by (rule dispatchInv_dispatchLoop)
qed

lemma satisfied_resume [simp]: "satisfied (resume k s) i = satisfied s i"
  by (simp add: satisfied_def split: option.splits)

lemma dispatchInv_createResolved:
  assumes "dispatchInv s" and "createResolved k a s = Some s'"
  shows "dispatchInv s'"
proof -
  from assms(2) obtain t rest where c: "nth_opt (awaiting s) k = Some (AwaitCreate t rest)"
    and s': "s' = spawnAgentBound t rest a (resume k s)"
    by (auto simp: createResolved_def split: option.splits suspended.splits)
  have "satisfied s i" if "i \<in> set (t # rest)" for i
    using assms(1) c that by (auto intro: cont_satisfied simp: contIds_def)
  then show ?thesis unfolding s'
    by (intro dispatchInv_spawnAgentBound dispatchInv_resume assms(1)) simp_all
qed

lemma dispatchInv_createRejected:
  assumes "dispatchInv s" and "createRejected k msg s = Some s'"
  shows "dispatchInv s'"
proof -
  from assms(2) obtain t rest where c: "nth_opt (awaiting s) k = Some (AwaitCreate t rest)"
    and s': "s' = dispatchLoop rest (markFailed t msg defaultMaxRetries (resume k s))"
    by (auto simp: createRejected_def split: option.splits suspended.splits)
  have "satisfied s i" if "i \<in> set (t # rest)" for i
    using assms(1) c that by (auto intro: cont_satisfied simp: contIds_def)
  then show ?thesis unfolding s'
    by (intro dispatchInv_failThenLoop dispatchInv_resume assms(1)) simp_all
qed

lemma dispatchInv_saveResolved:
  assumes "dispatchInv s" and "saveResolved k s = Some s'"
  shows "dispatchInv s'"
proof -
  from assms(2) consider "s' = trySpawnAgents (resume k s)"
    | t rest where "nth_opt (awaiting s) k = Some (AwaitSave t rest)" "s' = dispatchLoop rest (resume k s)"
    by (auto simp: saveResolved_def split: option.splits suspended.splits)
  then show ?thesis
  proof cases
    case 1
    then show ?thesis using assms(1) by (simp add: dispatchInv_trySpawnAgents dispatchInv_resume)
  next
    case 2
    have "satisfied s i" if "i \<in> set (t # rest)" for i
      using assms(1) 2(1) that by (auto intro: cont_satisfied simp: contIds_def)
    then have "list_all (satisfied (resume k s)) rest" by (simp add: list_all_iff)
    with assms(1) show ?thesis unfolding 2(2)
      by (intro dispatchInv_dispatchLoop dispatchInv_resume)
  qed
qed

lemma dispatchInv_saveRejected:
  assumes "dispatchInv s" and "saveRejected k msg s = Some s'"
  shows "dispatchInv s'"
proof -
  from assms(2) consider "s' = resume k s"
    | t rest where "nth_opt (awaiting s) k = Some (AwaitSave t rest)"
        "s' = dispatchLoop rest (markFailed t msg defaultMaxRetries (resume k s))"
    by (auto simp: saveRejected_def split: option.splits suspended.splits)
  then show ?thesis
  proof cases
    case 1
    then show ?thesis using assms(1) by (simp add: dispatchInv_resume)
  next
    case 2
    have "satisfied s i" if "i \<in> set (t # rest)" for i
      using assms(1) 2(1) that by (auto intro: cont_satisfied simp: contIds_def)
    then show ?thesis unfolding 2(2)
      by (intro dispatchInv_failThenLoop dispatchInv_resume assms(1)) simp_all
  qed
qed

lemma dispatchInv_timerFires:
  assumes "dispatchInv s" and "timerFires n s = Some s'"
  shows "dispatchInv s'"
proof -
  from assms(2) obtain a where
    s': "s' = timeoutCallback a (s\<lparr>timers := filter (\<lambda>p. fst p \<noteq> n) (timers s)\<rparr>)"
    by (auto simp: timerFires_def split: option.splits)
  have "dispatchInv (s\<lparr>timers := filter (\<lambda>p. fst p \<noteq> n) (timers s)\<rparr>)"
    using assms(1) by (rule dispatchInv_frame) simp_all
  then show ?thesis unfolding s' by (rule dispatchInv_timeoutCallback)
qed

lemma stop_fields [simp]:
  "tasks (stop s) = tasks s" "completed (stop s) = completed s"
  "activeAgents (stop s) = activeAgents s"
  "isRunning (stop s) = False" "timeouts (stop s) = []"
  "maxConcurrent (stop s) = maxConcurrent s"
  "timers (stop s) = filter (\<lambda>p. fst p \<notin> snd ` set (timeouts s)) (timers s)"
  by (simp_all add: stop_def) (simp add: clearAllTimeouts_def)

lemma inflight_stopLoop [simp]: "set (inflight (stopLoop n s)) = set (inflight s)"
  by (simp add: stopLoop_def inflight_def contIds_def)

lemma dispatchInv_stopLoop: "dispatchInv s \<Longrightarrow> dispatchInv (stopLoop n s)"
  by (erule dispatchInv_inflight) simp_all

lemma start_fields [simp]:
  "tasks (snd (start s)) = tasks s" "completed (snd (start s)) = completed s"
  "activeAgents (snd (start s)) = activeAgents s"
  by (simp_all add: start_def)

lemma sendFollowUp_fields [simp]:
  "tasks (snd (sendFollowUp i m s)) = tasks s" "completed (snd (sendFollowUp i m s)) = completed s"
  "activeAgents (snd (sendFollowUp i m s)) = activeAgents s"
  "awaiting (snd (sendFollowUp i m s)) = awaiting s"
  by (simp_all add: sendFollowUp_def split: option.splits)

lemma dispatchInv_start: "dispatchInv s \<Longrightarrow> dispatchInv (snd (start s))"
proof (erule dispatchInv_inflight)
  show "i \<in> set (inflight s) \<or> satisfied s i" if "i \<in> set (inflight (snd (start s)))" for i
    using that by (auto simp: inflight_def start_def contIds_def split: if_splits)
qed simp_all

lemma dispatchInv_stop: "dispatchInv s \<Longrightarrow> dispatchInv (stop s)"
proof -
  assume "dispatchInv s"
  then have "dispatchInv (clearAllTimeouts (logEvent StopAllMonitoring (s\<lparr>isRunning := False\<rparr>)))"
    by (rule dispatchInv_frame) simp_all
  then show ?thesis unfolding stop_def by (rule dispatchInv_stopLoop)
qed

lemma dispatchInv_stopSettled:
  assumes "dispatchInv s" and "stopSettled k s = Some s'"
  shows "dispatchInv s'"
proof -
  from assms(2) obtain n where "s' = stopLoop n (resume k s)"
    by (auto simp: stopSettled_def split: option.splits suspended.splits)
  with assms(1) show ?thesis by (simp add: dispatchInv_stopLoop dispatchInv_resume)
qed

lemma dispatchInv_sendFollowUp: "dispatchInv s \<Longrightarrow> dispatchInv (snd (sendFollowUp i m s))"
  by (erule dispatchInv_frame) simp_all

lemma dispatchInv_addOne:
  assumes inv: "dispatchInv s" and fresh: "map_of (tasks s) (task_id inp) = None"
  shows "dispatchInv (addOne inp s)"
proof -
  have "dispatchInv (setTask (task_id inp) (newTask inp) s)"
  proof (rule dispatchInv_ext [OF inv])
    show "graphExt s (setTask (task_id inp) (newTask inp) s)"
      using fresh by (rule graphExt_setTask_new)
    show "distinct (map fst (tasks (setTask (task_id inp) (newTask inp) s)))"
      using inv by (simp add: dispatchInv_def distinct_update)
    show "task_id u = j \<and> (status u = Ready \<longrightarrow>
            depsComplete (completed (setTask (task_id inp) (newTask inp) s)) u)"
      if "map_of (tasks (setTask (task_id inp) (newTask inp) s)) j = Some u" for j u
    proof (cases "j = task_id inp")
      case True
      with that have "u = newTask inp" by (simp add: update_conv')
      with True show ?thesis by (simp add: newTask_def)
    next
      case False
      with that have "map_of (tasks s) j = Some u" by (simp add: update_conv')
      with inv show ?thesis by (simp add: dispatchInv_def)
    qed
    show "i \<in> set (inflight s) \<or> satisfied s i"
      if "i \<in> set (inflight (setTask (task_id inp) (newTask inp) s))" for i
      using that by (simp add: inflight_def)
  qed
  then show ?thesis by (simp add: addOne_def Let_def dispatchInv_markCompleted)
qed

lemma lookup_addOne_None:
  "map_of (tasks (addOne inp s)) j = None \<longleftrightarrow> j \<noteq> task_id inp \<and> map_of (tasks s) j = None"
  by (auto simp: addOne_def Let_def lookup_markCompleted update_conv' split: option.splits)

lemma dispatchInv_fold_addOne:
  "dispatchInv s \<Longrightarrow> distinct (map task_id inputs) \<Longrightarrow>
   list_all (\<lambda>i. map_of (tasks s) (task_id i) = None) inputs \<Longrightarrow>
   dispatchInv (fold addOne inputs s)"
proof (induction inputs arbitrary: s)
  case Nil
  then show ?case by simp
next
  case (Cons inp inputs)
  have "dispatchInv (addOne inp s)"
    using Cons.prems by (intro dispatchInv_addOne) simp_all
  moreover have "list_all (\<lambda>i. map_of (tasks (addOne inp s)) (task_id i) = None) inputs"
    using Cons.prems by (auto simp: list_all_iff lookup_addOne_None image_iff)
  ultimately show ?case using Cons.prems by (simp add: Cons.IH)
qed

lemma dispatchInv_loadTasks:
  "dispatchInv s \<Longrightarrow> wellFormed (LoadTasks inputs) s \<Longrightarrow> dispatchInv (loadTasks inputs s)"
  by (simp add: loadTasks_def addTasks_def dispatchInv_updateReadyTasks dispatchInv_fold_addOne)

lemma settled_frame:
  "settled s \<Longrightarrow> tasks s' = tasks s \<Longrightarrow> completed s' = completed s \<Longrightarrow> settled s'"
  by (simp add: settled_def)

lemma settled_markRunning: "settled s \<Longrightarrow> settled (markRunning i a s)"
  by (auto simp: settled_def lookup_markRunning split: if_splits)

lemma settled_markFailed: "settled s \<Longrightarrow> settled (markFailed i e m s)"
  by (auto simp: settled_def lookup_markFailed split: if_splits)

lemma settled_markCompleted: "settled s \<Longrightarrow> settled (markCompleted i r c s)"
proof (cases "map_of (tasks s) i")
  case None
  assume "settled s"
  with None show ?thesis by (simp add: markCompleted_def)
next
  case (Some t)
  have "settled (updateReadyTasks u)" for u by (rule settled_updateReadyTasks)
  moreover have "settled (checkAllComplete (updateReadyTasks u))" for u
    by (rule settled_frame [OF settled_updateReadyTasks]) simp_all
  ultimately show ?thesis using Some by (simp add: markCompleted_def Let_def)
qed

lemma settled_trySpawnAgents: "settled s \<Longrightarrow> settled (trySpawnAgents s)"
  by (erule settled_frame) simp_all

lemma settled_dispatchLoop: "settled s \<Longrightarrow> settled (dispatchLoop b s)"
  by (erule settled_frame) simp_all

lemma settled_resume: "settled s \<Longrightarrow> settled (resume k s)"
  by (erule settled_frame) simp_all

lemma settled_handleAgentComplete: "settled s \<Longrightarrow> settled (handleAgentComplete a r s)"
  unfolding handleAgentComplete_def Let_def
  by (auto intro!: settled_trySpawnAgents settled_markCompleted elim: settled_frame)

lemma settled_handleAgentFailed: "settled s \<Longrightarrow> settled (handleAgentFailed a e s)"
  unfolding handleAgentFailed_def Let_def
  by (auto intro!: settled_trySpawnAgents settled_markFailed elim: settled_frame)

lemma settled_timeoutCallback: "settled s \<Longrightarrow> settled (timeoutCallback a s)"
  unfolding timeoutCallback_def
  by (auto intro!: settled_handleAgentFailed elim: settled_frame)

lemma settled_spawnAgentBound: "settled s \<Longrightarrow> settled (spawnAgentBound t rest a s)"
proof -
  assume "settled s"
  then have "settled (s\<lparr>activeAgents := AList.update a t (activeAgents s)\<rparr>)"
    by (rule settled_frame) simp_all
  then have "settled (markRunning t a (s\<lparr>activeAgents := AList.update a t (activeAgents s)\<rparr>))"
    by (rule settled_markRunning)
  then show ?thesis
    by (rule settled_frame) (simp_all add: spawnAgentBound_def Let_def)
qed

lemma settled_step:
  assumes "settled s" and "step a s = Some s'"
  shows "settled s'"
proof (cases a)
  case (LoadTasks inputs)
  with assms(2) show ?thesis
    by (auto simp: loadTasks_def addTasks_def settled_updateReadyTasks)
next
  case Start
  with assms show ?thesis by (auto elim: settled_frame)
next
  case Stop
  with assms show ?thesis by (auto elim: settled_frame)
next
  case (FollowUp i m)
  with assms show ?thesis by (auto elim: settled_frame)
next
  case (CreateResolved k a)
  with assms show ?thesis
    by (auto simp: createResolved_def split: option.splits suspended.splits
        intro!: settled_spawnAgentBound settled_resume)
next
  case (CreateRejected k msg)
  with assms show ?thesis
    by (auto simp: createRejected_def split: option.splits suspended.splits
        intro!: settled_dispatchLoop settled_markFailed settled_resume)
next
  case (SaveResolved k)
  with assms show ?thesis
    by (auto simp: saveResolved_def split: option.splits suspended.splits
        intro!: settled_dispatchLoop settled_trySpawnAgents settled_resume)
next
  case (SaveRejected k msg)
  with assms show ?thesis
    by (auto simp: saveRejected_def split: option.splits suspended.splits
        intro!: settled_dispatchLoop settled_markFailed settled_resume)
next
  case (StopSettled k)
  with assms show ?thesis
    by (auto simp: stopSettled_def split: option.splits suspended.splits elim: settled_frame)
next
  case (SigCompleted a r)
  with assms show ?thesis by (auto intro: settled_handleAgentComplete)
next
  case (SigFailed a summary)
  with assms show ?thesis by (auto intro: settled_handleAgentFailed)
next
  case (SigCancelled a)
  with assms show ?thesis by (auto intro: settled_handleAgentFailed)
next
  case (SigError a msg)
  with assms show ?thesis by simp
next
  case (TimerFires n)
  with assms show ?thesis
    by (auto simp: timerFires_def split: option.splits
        intro!: settled_timeoutCallback elim: settled_frame)
qed

lemma dispatchInv_step:
  assumes "dispatchInv s" and "wellFormed a s" and "step a s = Some s'"
  shows "dispatchInv s'"
proof (cases a)
  case (LoadTasks inputs)
  with assms show ?thesis using dispatchInv_loadTasks [of s inputs] by auto
next
  case Start
  with assms show ?thesis by (auto intro: dispatchInv_start)
next
  case Stop
  with assms show ?thesis by (auto intro: dispatchInv_stop)
next
  case (FollowUp i m)
  with assms show ?thesis by (auto intro: dispatchInv_sendFollowUp)
next
  case (CreateResolved k a)
  with assms show ?thesis by (auto intro: dispatchInv_createResolved)
next
  case (CreateRejected k msg)
  with assms show ?thesis by (auto intro: dispatchInv_createRejected)
next
  case (SaveResolved k)
  with assms show ?thesis by (auto intro: dispatchInv_saveResolved)
next
  case (SaveRejected k msg)
  with assms show ?thesis by (auto intro: dispatchInv_saveRejected)
next
  case (StopSettled k)
  with assms show ?thesis by (auto intro: dispatchInv_stopSettled)
next
  case (SigCompleted a r)
  with assms show ?thesis by (auto intro: dispatchInv_handleAgentComplete)
next
  case (SigFailed a summary)
  with assms show ?thesis by (auto intro: dispatchInv_handleAgentFailed)
next
  case (SigCancelled a)
  with assms show ?thesis by (auto intro: dispatchInv_handleAgentFailed)
next
  case (SigError a msg)
  with assms show ?thesis by simp
next
  case (TimerFires n)
  with assms show ?thesis by (auto intro: dispatchInv_timerFires)
qed

lemma dispatchInv_init: "dispatchInv (init mc)"
  by (simp add: dispatchInv_def init_def inflight_def)

lemma settled_init: "settled (init mc)"
  by (simp add: settled_def init_def)

lemma runLoaded_invariant:
  "dispatchInv s \<Longrightarrow> settled s \<Longrightarrow> runLoaded as s = Some s' \<Longrightarrow> dispatchInv s' \<and> settled s'"
proof (induction as arbitrary: s)
  case Nil
  then show ?case by simp
next
  case (Cons a as)
  from Cons.prems(3) obtain s1 where wf: "wellFormed a s" and st: "step a s = Some s1"
    and rest: "runLoaded as s1 = Some s'"
    by (auto split: if_splits option.splits)
  have "dispatchInv s1" using Cons.prems(1) wf st by (rule dispatchInv_step)
  moreover have "settled s1" using Cons.prems(2) st by (rule settled_step)
  ultimately show ?case using rest by (rule Cons.IH)
qed

lemma onlyPromoted_refl [simp]: "onlyPromoted t t"
  by (simp add: onlyPromoted_def)

lemma onlyPromoted_promote [simp]: "onlyPromoted t (promote c t)"
  by (simp add: onlyPromoted_def promote_def)

lemma onlyPromoted_trans: "onlyPromoted t t' \<Longrightarrow> onlyPromoted t' t'' \<Longrightarrow> onlyPromoted t t''"
  by (auto simp: onlyPromoted_def)

lemma othersPromoted_refl [simp]: "othersPromoted X s s"
  by (simp add: othersPromoted_def)

lemma othersPromoted_trans:
  assumes "othersPromoted X s s1" and "othersPromoted X s1 s2"
  shows "othersPromoted X s s2"
  unfolding othersPromoted_def
proof (intro allI impI)
  fix j t assume j: "j \<notin> X" and t: "map_of (tasks s) j = Some t"
  with assms(1) obtain t1 where t1: "map_of (tasks s1) j = Some t1" "onlyPromoted t t1"
    unfolding othersPromoted_def by blast
  with assms(2) j obtain t2 where "map_of (tasks s2) j = Some t2" "onlyPromoted t1 t2"
    unfolding othersPromoted_def by blast
  with t1(2) show "\<exists>t'. map_of (tasks s2) j = Some t' \<and> onlyPromoted t t'"
    by (auto intro: onlyPromoted_trans)
qed

lemma othersPromoted_mono: "othersPromoted X s s' \<Longrightarrow> X \<subseteq> Y \<Longrightarrow> othersPromoted Y s s'"
  unfolding othersPromoted_def by blast

lemma othersPromoted_frame: "tasks s' = tasks s \<Longrightarrow> othersPromoted X s s'"
  by (simp add: othersPromoted_def)

lemma othersPromoted_then_frame:
  "othersPromoted X s s1 \<Longrightarrow> tasks s2 = tasks s1 \<Longrightarrow> othersPromoted X s s2"
  by (simp add: othersPromoted_def)

lemma othersPromoted_after_frame:
  "tasks s1 = tasks s \<Longrightarrow> othersPromoted X s1 s2 \<Longrightarrow> othersPromoted X s s2"
  by (simp add: othersPromoted_def)

lemma othersPromoted_updateReadyTasks: "othersPromoted X s (updateReadyTasks s)"
  by (simp add: othersPromoted_def updateReadyTasks_lookup)

lemma othersPromoted_markRunning: "i \<in> X \<Longrightarrow> othersPromoted X s (markRunning i a s)"
  by (auto simp: othersPromoted_def lookup_markRunning)

lemma othersPromoted_markFailed: "i \<in> X \<Longrightarrow> othersPromoted X s (markFailed i e m s)"
  by (auto simp: othersPromoted_def lookup_markFailed)

lemma othersPromoted_markCompleted: "i \<in> X \<Longrightarrow> othersPromoted X s (markCompleted i r c s)"
  by (cases "map_of (tasks s) i") (auto simp: othersPromoted_def lookup_markCompleted)

lemma bound_inflight:
  "truthy (map_of (activeAgents s) a) \<Longrightarrow> the (map_of (activeAgents s) a) \<in> set (inflight s)"
proof -
  assume "truthy (map_of (activeAgents s) a)"
  then obtain i where i: "map_of (activeAgents s) a = Some i"
    by (auto simp: truthy_def split: option.splits)
  then have "(a, i) \<in> set (activeAgents s)" by (rule map_of_SomeD)
  then have "i \<in> set (inflight s)" by (force simp: inflight_def)
  with i show ?thesis by simp
qed

lemma othersPromoted_handleAgentComplete:
  "othersPromoted (set (inflight s)) s (handleAgentComplete a r s)"
proof (cases "truthy (map_of (activeAgents s) a)")
  case False
  then show ?thesis by (simp add: handleAgentComplete_def)
next
  case True
  let ?i = "the (map_of (activeAgents s) a)"
  let ?s2 = "clearTimeout a (unbind a s)"
  have "othersPromoted (set (inflight s)) ?s2 (markCompleted ?i r True ?s2)"
    using bound_inflight [OF True] by (rule othersPromoted_markCompleted)
  then have "othersPromoted (set (inflight s)) s (markCompleted ?i r True ?s2)"
    by (rule othersPromoted_after_frame [rotated]) simp
  then have "othersPromoted (set (inflight s)) s (trySpawnAgents (markCompleted ?i r True ?s2))"
    by (rule othersPromoted_then_frame) simp
  with True show ?thesis by (simp add: handleAgentComplete_def Let_def)
qed

lemma othersPromoted_handleAgentFailed:
  "othersPromoted (set (inflight s)) s (handleAgentFailed a e s)"
proof (cases "truthy (map_of (activeAgents s) a)")
  case False
  then show ?thesis by (simp add: handleAgentFailed_def)
next
  case True
  let ?i = "the (map_of (activeAgents s) a)"
  let ?s3 = "logEvent (StopMonitoring a) (clearTimeout a (unbind a s))"
  have "othersPromoted (set (inflight s)) ?s3 (markFailed ?i e defaultMaxRetries ?s3)"
    using bound_inflight [OF True] by (rule othersPromoted_markFailed)
  then have "othersPromoted (set (inflight s)) s (markFailed ?i e defaultMaxRetries ?s3)"
    by (rule othersPromoted_after_frame [rotated]) simp
  then have "othersPromoted (set (inflight s)) s
      (trySpawnAgents (markFailed ?i e defaultMaxRetries ?s3))"
    by (rule othersPromoted_then_frame) simp
  with True show ?thesis by (simp add: handleAgentFailed_def Let_def)
qed

lemma othersPromoted_timeoutCallback:
  assumes "tasks s1 = tasks s" and "activeAgents s1 = activeAgents s" and "awaiting s1 = awaiting s"
  shows "othersPromoted (set (inflight s)) s (timeoutCallback a s1)"
proof -
  let ?u = "logEvent (StopAgent a) s1"
  have "inflight ?u = inflight s" using assms by (simp add: inflight_def)
  then have "othersPromoted (set (inflight s)) ?u (handleAgentFailed a ''Timeout exceeded'' ?u)"
    using othersPromoted_handleAgentFailed [of ?u a "''Timeout exceeded''"] by simp
  then have "othersPromoted (set (inflight s)) s (handleAgentFailed a ''Timeout exceeded'' ?u)"
    by (rule othersPromoted_after_frame [rotated]) (simp add: assms)
  moreover have "othersPromoted (set (inflight s)) s s1"
    using assms(1) by (rule othersPromoted_frame)
  ultimately show ?thesis by (simp add: timeoutCallback_def)
qed

lemma cont_inflight:
  "nth_opt (awaiting s) k = Some c \<Longrightarrow> i \<in> set (contIds c) \<Longrightarrow> i \<in> set (inflight s)"
  by (auto simp: inflight_def dest: nth_opt_mem)

lemma tasks_spawnAgentBound:
  "tasks (spawnAgentBound t rest a s) = tasks (markRunning t a s)"
  by (simp add: spawnAgentBound_def Let_def markRunning_def split: option.splits)

lemma othersPromoted_addOne: "othersPromoted {task_id inp} s (addOne inp s)"
proof -
  have "othersPromoted {task_id inp} s (setTask (task_id inp) (newTask inp) s)"
    by (auto simp: othersPromoted_def update_conv')
  moreover have "othersPromoted {task_id inp} (setTask (task_id inp) (newTask inp) s)
      (markCompleted (task_id inp) noResult False (setTask (task_id inp) (newTask inp) s))"
    by (rule othersPromoted_markCompleted) simp
  ultimately show ?thesis
    by (auto simp: addOne_def Let_def intro: othersPromoted_trans)
qed

lemma othersPromoted_fold_addOne:
  "othersPromoted (task_id ` set inputs) s (fold addOne inputs s)"
proof (induction inputs arbitrary: s)
  case Nil
  then show ?case by simp
next
  case (Cons inp inputs)
  have "othersPromoted (task_id ` set (inp # inputs)) s (addOne inp s)"
    by (rule othersPromoted_mono [OF othersPromoted_addOne]) simp
  moreover have "othersPromoted (task_id ` set (inp # inputs)) (addOne inp s)
      (fold addOne inputs (addOne inp s))"
    by (rule othersPromoted_mono [OF Cons.IH]) auto
  ultimately show ?case by (auto intro: othersPromoted_trans)
qed

lemma othersPromoted_loadTasks:
  "othersPromoted (task_id ` set inputs) s (loadTasks inputs s)"
  unfolding loadTasks_def addTasks_def
  by (rule othersPromoted_trans [OF othersPromoted_fold_addOne othersPromoted_updateReadyTasks])

lemma othersPromoted_step:
  assumes "step a s = Some s'"
  shows "othersPromoted (set (inflight s) \<union> loadedIds a) s s'"
proof (cases a)
  case (LoadTasks inputs)
  with assms show ?thesis
    by (auto intro: othersPromoted_mono [OF othersPromoted_loadTasks])
next
  case Start
  with assms show ?thesis by (auto intro: othersPromoted_frame)
next
  case Stop
  with assms show ?thesis by (auto intro: othersPromoted_frame)
next
  case (FollowUp i m)
  with assms show ?thesis by (auto intro: othersPromoted_frame)
next
  case (CreateResolved k ag)
  with assms obtain t rest where c: "nth_opt (awaiting s) k = Some (AwaitCreate t rest)"
    and s': "s' = spawnAgentBound t rest ag (resume k s)"
    by (auto simp: createResolved_def split: option.splits suspended.splits)
  have "t \<in> set (inflight s)" using c by (rule cont_inflight) (simp add: contIds_def)
  then have "othersPromoted (set (inflight s)) (resume k s) (markRunning t ag (resume k s))"
    by (rule othersPromoted_markRunning)
  then have "othersPromoted (set (inflight s)) s s'"
    unfolding s' by (simp add: othersPromoted_def tasks_spawnAgentBound)
  with CreateResolved show ?thesis by (auto intro: othersPromoted_mono)
next
  case (CreateRejected k msg)
  with assms obtain t rest where c: "nth_opt (awaiting s) k = Some (AwaitCreate t rest)"
    and s': "s' = dispatchLoop rest (markFailed t msg defaultMaxRetries (resume k s))"
    by (auto simp: createRejected_def split: option.splits suspended.splits)
  have "t \<in> set (inflight s)" using c by (rule cont_inflight) (simp add: contIds_def)
  then have "othersPromoted (set (inflight s)) (resume k s)
      (markFailed t msg defaultMaxRetries (resume k s))"
    by (rule othersPromoted_markFailed)
  then have "othersPromoted (set (inflight s)) s s'"
    unfolding s' by (simp add: othersPromoted_def)
  with CreateRejected show ?thesis by (auto intro: othersPromoted_mono)
next
  case (SaveResolved k)
  with assms show ?thesis
    by (auto simp: saveResolved_def split: option.splits suspended.splits
        intro!: othersPromoted_frame)
next
  case (SaveRejected k msg)
  with assms consider "s' = resume k s"
    | t rest where "nth_opt (awaiting s) k = Some (AwaitSave t rest)"
        "s' = dispatchLoop rest (markFailed t msg defaultMaxRetries (resume k s))"
    by (auto simp: saveRejected_def split: option.splits suspended.splits)
  then have "othersPromoted (set (inflight s)) s s'"
  proof cases
    case 1
    then show ?thesis by (simp add: othersPromoted_frame)
  next
    case 2
    have "t \<in> set (inflight s)" using 2(1) by (rule cont_inflight) (simp add: contIds_def)
    then have "othersPromoted (set (inflight s)) (resume k s)
        (markFailed t msg defaultMaxRetries (resume k s))"
      by (rule othersPromoted_markFailed)
    then show ?thesis unfolding 2(2) by (simp add: othersPromoted_def)
  qed
  with SaveRejected show ?thesis by (auto intro: othersPromoted_mono)
next
  case (StopSettled k)
  with assms show ?thesis
    by (auto simp: stopSettled_def split: option.splits suspended.splits
        intro!: othersPromoted_frame)
next
  case (SigCompleted ag r)
  with assms show ?thesis
    by (auto intro: othersPromoted_mono [OF othersPromoted_handleAgentComplete])
next
  case (SigFailed ag summary)
  with assms show ?thesis
    by (auto intro: othersPromoted_mono [OF othersPromoted_handleAgentFailed])
next
  case (SigCancelled ag)
  with assms show ?thesis
    by (auto intro: othersPromoted_mono [OF othersPromoted_handleAgentFailed])
next
  case (SigError ag msg)
  with assms show ?thesis by simp
next
  case (TimerFires n)
  with assms obtain ag where
    s': "s' = timeoutCallback ag (s\<lparr>timers := filter (\<lambda>p. fst p \<noteq> n) (timers s)\<rparr>)"
    by (auto simp: timerFires_def split: option.splits)
  have "othersPromoted (set (inflight s)) s s'"
    unfolding s' by (rule othersPromoted_timeoutCallback) simp_all
  with TimerFires show ?thesis by (auto intro: othersPromoted_mono)
qed

lemma pending_not_inflight:
  assumes "dispatchInv s" and "settled s" and "map_of (tasks s) i = Some t" and "status t = Pending"
  shows "i \<notin> set (inflight s)"
proof
  assume "i \<in> set (inflight s)"
  with assms(1) have "satisfied s i" by (rule dispatchInv_satisfied)
  with assms(3) have "depsComplete (completed s) t" by (simp add: satisfied_def)
  with assms(2,3,4) show False by (simp add: settled_def)
qed

lemma pending_not_loaded:
  assumes "wellFormed a s" and "map_of (tasks s) i = Some t"
  shows "i \<notin> loadedIds a"
  using assms by (cases a) (auto simp: list_all_iff)

text \<open>
  C4 as stated fails: \<open>B\<close> is dispatched, then a second load overwrites \<open>B\<close> with the
  dependency \<open>Z\<close>; the agent started for the first \<open>B\<close> is bound to the id, its failure
  takes the retry path, and \<open>B\<close> is \<open>ready\<close> while \<open>Z\<close> is not completed.
\<close>

theorem reload_of_inflight_id_counterexample:
  "map_option (\<lambda>s. map (\<lambda>(k, t). (k, status t, dependsOn t, depsComplete (completed s) t)) (tasks s))
     (run [LoadTasks [mkInput ''B'' [] 0 None False], Start, SaveResolved 0,
           LoadTasks [mkInput ''B'' [''Z''] 0 None False, mkInput ''Z'' [] 0 None False],
           CreateResolved 0 ''a1'', SigFailed ''a1'' None] (init 1))
   = Some [(''B'', Ready, [''Z''], False), (''Z'', Ready, [], True)]"
  by code_simp

text \<open>
  C4, amended: in every state reached from the initial one by actions of the event loop
  in which task ids are unique (each load brings distinct ids that are not in the table
  yet), no \<open>ready\<close> task, whether made ready by the scan or by the retry path of
  \<open>markFailed\<close>, has a dependency outside the completed set, and no \<open>pending\<close> task has
  all its dependencies completed; and a step from such a state turns a \<open>pending\<close> task
  \<open>ready\<close> exactly when all ids of its \<open>dependsOn\<close> are in the completed set after
  the step, and changes nothing else of it.
\<close>

theorem ready_exactly_when_dependencies_completed:
  assumes "runLoaded as (init mc) = Some s"
  shows "(\<forall>i t. map_of (tasks s) i = Some t \<longrightarrow>
             (status t = Ready \<longrightarrow> depsComplete (completed s) t)
           \<and> (status t = Pending \<longrightarrow> \<not> depsComplete (completed s) t))
       \<and> (\<forall>a s' i t. wellFormed a s \<and> step a s = Some s' \<and> map_of (tasks s) i = Some t
               \<and> status t = Pending \<longrightarrow>
             map_of (tasks s') i
               = Some (if depsComplete (completed s') t then t\<lparr>status := Ready\<rparr> else t))"
proof -
  from runLoaded_invariant [OF dispatchInv_init settled_init assms]
  have inv: "dispatchInv s" and st: "settled s" by simp_all
  have "map_of (tasks s') i = Some (if depsComplete (completed s') t then t\<lparr>status := Ready\<rparr> else t)"
    if wf: "wellFormed a s" and step: "step a s = Some s'"
      and t: "map_of (tasks s) i = Some t" and p: "status t = Pending" for a s' i t
  proof -
    have inv': "dispatchInv s'" using inv wf step by (rule dispatchInv_step)
    have st': "settled s'" using st step by (rule settled_step)
    have "i \<notin> set (inflight s) \<union> loadedIds a"
      using pending_not_inflight [OF inv st t p] pending_not_loaded [OF wf t] by simp
    with othersPromoted_step [OF step] t obtain t' where
      t': "map_of (tasks s') i = Some t'" "onlyPromoted t t'"
      unfolding othersPromoted_def by blast
    from t'(2) p consider "t' = t" | "t' = t\<lparr>status := Ready\<rparr>"
      by (auto simp: onlyPromoted_def)
    then show ?thesis
    proof cases
      case 1
      with t'(1) p st' have "\<not> depsComplete (completed s') t" by (simp add: settled_def)
      with 1 t'(1) show ?thesis by simp
    next
      case 2
      with t'(1) inv' have "depsComplete (completed s') (t\<lparr>status := Ready\<rparr>)"
        by (simp add: dispatchInv_def)
      then have "depsComplete (completed s') t" by (simp add: depsComplete_def)
      with 2 t'(1) show ?thesis by simp
    qed
  qed
  then have moves: "\<forall>a s' i t. wellFormed a s \<and> step a s = Some s' \<and> map_of (tasks s) i = Some t
               \<and> status t = Pending \<longrightarrow>
             map_of (tasks s') i
               = Some (if depsComplete (completed s') t then t\<lparr>status := Ready\<rparr> else t)"
    by blast
  from inv st have rests: "\<forall>i t. map_of (tasks s) i = Some t \<longrightarrow>
             (status t = Ready \<longrightarrow> depsComplete (completed s) t)
           \<and> (status t = Pending \<longrightarrow> \<not> depsComplete (completed s) t)"
    by (simp add: dispatchInv_def settled_def)
  from rests moves show ?thesis by (rule conjI)
qed

lemma retryState_reached: "runLoaded retryActions (init 1) = Some retryState"
  by code_simp

lemma retryState_tasks:
  "map_option status (map_of (tasks retryState) ''A'') = Some Ready"
  "map_option status (map_of (tasks retryState) ''B'') = Some Pending"
  by code_simp+

lemma dependentWaiting_facts:
  "runLoaded [LoadTasks [mkInput ''A'' [] 0 None False, mkInput ''B'' [''A''] 0 None False],
                Start, SaveResolved 0, CreateResolved 0 ''a1'', SaveResolved 0] (init 1)
     = Some dependentWaiting"
  "map_option (\<lambda>t. (status t, dependsOn t)) (map_of (tasks dependentWaiting) ''B'')
     = Some (Pending, [''A''])"
  "''A'' \<in> completed (handleAgentComplete ''a1'' noResult dependentWaiting)"
  by code_simp+

theorem ready_exactly_when_dependencies_completed_witness:
  "runLoaded [LoadTasks [mkInput ''A'' [] 0 None False, mkInput ''B'' [''A''] 0 None False],
                Start, SaveResolved 0, CreateResolved 0 ''a1'', SaveResolved 0] (init 1)
     = Some dependentWaiting
   \<and> step (SigCompleted ''a1'' noResult) dependentWaiting
       = Some (handleAgentComplete ''a1'' noResult dependentWaiting)
   \<and> map_option status (map_of (tasks dependentWaiting) ''B'') = Some Pending
   \<and> map_option status (map_of (tasks (handleAgentComplete ''a1'' noResult dependentWaiting)) ''B'')
       = Some Ready
   \<and> runLoaded retryActions (init 1) = Some retryState
   \<and> (\<exists>t. map_of (tasks retryState) ''A'' = Some t \<and> status t = Ready
            \<and> depsComplete (completed retryState) t)"
proof -
  note moves = ready_exactly_when_dependencies_completed [OF dependentWaiting_facts(1)]
  from dependentWaiting_facts(2) obtain tb where
    tb: "map_of (tasks dependentWaiting) ''B'' = Some tb" "status tb = Pending"
      "dependsOn tb = [''A'']"
    by auto
  have "map_of (tasks (handleAgentComplete ''a1'' noResult dependentWaiting)) ''B''
      = Some (if depsComplete (completed (handleAgentComplete ''a1'' noResult dependentWaiting)) tb
              then tb\<lparr>status := Ready\<rparr> else tb)"
    using moves [THEN conjunct2, rule_format,
        of "SigCompleted ''a1'' noResult" "handleAgentComplete ''a1'' noResult dependentWaiting"
           "''B''" tb] tb
    by simp
  moreover have "depsComplete (completed (handleAgentComplete ''a1'' noResult dependentWaiting)) tb"
    using dependentWaiting_facts(3) tb(3) by (simp add: depsComplete_def)
  ultimately have b: "map_option status
      (map_of (tasks (handleAgentComplete ''a1'' noResult dependentWaiting)) ''B'') = Some Ready"
    by simp
  note inv = ready_exactly_when_dependencies_completed
    [OF retryState_reached, THEN conjunct1, rule_format]
  from retryState_tasks(1) obtain ta where
    ta: "map_of (tasks retryState) ''A'' = Some ta" "status ta = Ready" by auto
  from inv [OF ta(1)] ta(2) have "depsComplete (completed retryState) ta" by simp
  with ta b tb dependentWaiting_facts(1) retryState_reached show ?thesis by simp
qed

section \<open>Dispatch, rejection and misuse\<close>





lemma timers_checkAllComplete:
  "x \<in> set (timers (checkAllComplete s)) \<Longrightarrow> x \<in> set (timers s)"
  by (auto simp: checkAllComplete_def onAllComplete_def clearAllTimeouts_def split: if_splits)

lemma timeouts_checkAllComplete:
  "x \<in> set (timeouts (checkAllComplete s)) \<Longrightarrow> x \<in> set (timeouts s)"
  by (auto simp: checkAllComplete_def split: if_splits)

lemma timers_markFailed: "set (timers (markFailed i e m s)) \<subseteq> set (timers s)"
  by (cases "map_of (tasks s) i")
     (auto simp: markFailed_def dest!: timers_checkAllComplete split: if_splits)

lemma timeouts_markFailed: "set (timeouts (markFailed i e m s)) \<subseteq> set (timeouts s)"
  by (cases "map_of (tasks s) i")
     (auto simp: markFailed_def dest!: timeouts_checkAllComplete split: if_splits)

text \<open>
  What a rejected start does: \<open>markFailed\<close> on that task with the attempts counters as they
  are, no new binding or timer, and the next task of the batch dispatched.
\<close>

lemma rejected_dispatch_takes_failure_path:
  assumes "nth_opt (awaiting s) k = Some (AwaitCreate t rest)"
  shows "\<exists>s'. createRejected k msg s = Some s'
     \<and> (\<forall>i. map_of (tasks s') i =
            (if i = t then map_option (\<lambda>task. task\<lparr>status := (if attempts task < retryBound task
                                                               then Ready else Failed),
                                                  error := Some msg\<rparr>) (map_of (tasks s) t)
             else map_of (tasks s) i))
     \<and> (\<forall>i. map_option attempts (map_of (tasks s') i) = map_option attempts (map_of (tasks s) i))
     \<and> activeAgents s' = activeAgents s
     \<and> set (timers s') \<subseteq> set (timers s) \<and> set (timeouts s') \<subseteq> set (timeouts s)
     \<and> (case rest of
          [] \<Rightarrow> awaiting s' = awaiting (resume k s)
        | t' # r \<Rightarrow> awaiting s' = awaiting (resume k s) @ [AwaitCreate t' r]
                    \<and> hd (trace s') = CreateAgent t')"
proof -
  let ?s1 = "markFailed t msg defaultMaxRetries (resume k s)"
  have s': "createRejected k msg s = Some (dispatchLoop rest ?s1)"
    using assms by (simp add: createRejected_def)
  have look: "map_of (tasks (dispatchLoop rest ?s1)) i =
            (if i = t then map_option (\<lambda>task. task\<lparr>status := (if attempts task < retryBound task
                                                               then Ready else Failed),
                                                  error := Some msg\<rparr>) (map_of (tasks s) t)
             else map_of (tasks s) i)" for i
    by (simp add: lookup_markFailed retryBound_def)
  have att: "map_option attempts (map_of (tasks (dispatchLoop rest ?s1)) i)
               = map_option attempts (map_of (tasks s) i)" for i
    by (cases "map_of (tasks s) t") (simp_all add: lookup_markFailed)
  have tm: "set (timers (dispatchLoop rest ?s1)) \<subseteq> set (timers s)"
    using timers_markFailed [of t msg defaultMaxRetries "resume k s"] by simp
  have to: "set (timeouts (dispatchLoop rest ?s1)) \<subseteq> set (timeouts s)"
    using timeouts_markFailed [of t msg defaultMaxRetries "resume k s"] by simp
  have aw: "(case rest of
          [] \<Rightarrow> awaiting (dispatchLoop rest ?s1) = awaiting (resume k s)
        | t' # r \<Rightarrow> awaiting (dispatchLoop rest ?s1) = awaiting (resume k s) @ [AwaitCreate t' r]
                    \<and> hd (trace (dispatchLoop rest ?s1)) = CreateAgent t')"
    by (cases rest) simp_all
  show ?thesis
    unfolding s' using look att tm to aw by simp
qed

text \<open>
  C8 as stated fails: after the agent of \<open>A\<close> has completed and its handle is unbound,
  \<open>A\<close> still carries its \<open>agentId\<close>, and \<open>sendFollowUp\<close> for \<open>A\<close> is accepted and sent to
  that agent.
\<close>

theorem followUp_after_unbind_counterexample:
  "map_option (\<lambda>s. (activeAgents s, summary s, fst (sendFollowUp ''A'' ''more'' s),
                    take 1 (trace (snd (sendFollowUp ''A'' ''more'' s))))) 
     (run [LoadTasks [mkInput ''A'' [] 0 None False],
           Start, SaveResolved 0, CreateResolved 0 ''a1'', SaveResolved 0,
           SigCompleted ''a1'' noResult] (init 2))
   = Some ([], [(''A'', Completed, 1)], Inr (), [SendFollowUp ''a1'' ''more''])"
  by code_simp

lemma agentId_promote [simp]: "agentId (promote c t) = agentId t"
  by (simp add: promote_def)

lemma agentId_markCompleted:
  "map_option agentId (map_of (tasks (markCompleted i r c s)) j)
     = map_option agentId (map_of (tasks s) j)"
  by (cases "map_of (tasks s) i"; cases "map_of (tasks s) j")
     (auto simp: lookup_markCompleted)

lemma agentId_markFailed:
  "map_option agentId (map_of (tasks (markFailed i e m s)) j)
     = map_option agentId (map_of (tasks s) j)"
  by (cases "map_of (tasks s) i") (auto simp: lookup_markFailed)

lemma agentId_handleAgentComplete:
  "map_option agentId (map_of (tasks (handleAgentComplete a r s)) j)
     = map_option agentId (map_of (tasks s) j)"
  using agentId_markCompleted [of _ r True "clearTimeout a (unbind a s)" j]
  by (simp add: handleAgentComplete_def Let_def)

lemma agentId_handleAgentFailed:
  "map_option agentId (map_of (tasks (handleAgentFailed a e s)) j)
     = map_option agentId (map_of (tasks s) j)"
  using agentId_markFailed
    [of _ e defaultMaxRetries "logEvent (StopMonitoring a) (clearTimeout a (unbind a s))" j]
  by (simp add: handleAgentFailed_def Let_def)

lemma agentId_timeoutCallback:
  "map_option agentId (map_of (tasks (timeoutCallback a s)) j)
     = map_option agentId (map_of (tasks s) j)"
  using agentId_handleAgentFailed [of a "''Timeout exceeded''" "logEvent (StopAgent a) s" j]
  by (simp add: timeoutCallback_def)

text \<open>
  C8, amended: \<open>start\<close> on a running orchestrator throws and leaves the state as it is.
  \<open>sendFollowUp\<close> throws and leaves the state as it is exactly when the task is unknown
  or its \<open>agentId\<close> is unset or empty; otherwise it sends the message to the agent
  recorded in \<open>agentId\<close>, also when that handle is no longer bound. \<open>agentId\<close> is unset in
  a new task, set by \<open>markRunning\<close>, and changed by none of the resolution handlers
  (completed, failed or cancelled, timeout).
\<close>

theorem followUp_goes_to_recorded_agent:
  "(isRunning s \<longrightarrow> start s = (Inl (Error ''Orchestrator is already running''), s))
   \<and> sendFollowUp i m s =
       (case map_of (tasks s) i of
          None \<Rightarrow> (Inl (Error (''No active agent for task '' @ i)), s)
        | Some t \<Rightarrow>
            (case agentId t of
               None \<Rightarrow> (Inl (Error (''No active agent for task '' @ i)), s)
             | Some a \<Rightarrow>
                 if a = [] then (Inl (Error (''No active agent for task '' @ i)), s)
                 else (Inr (), logEvent (SendFollowUp a m) s)))
   \<and> (map_of (tasks s) i = Some t \<and> agentId t = Some a \<and> a \<noteq> []
        \<and> map_of (activeAgents s) a = None \<longrightarrow>
        sendFollowUp i m s = (Inr (), logEvent (SendFollowUp a m) s))
   \<and> map_option agentId (map_of (tasks (handleAgentComplete h r s)) j)
        = map_option agentId (map_of (tasks s) j)
   \<and> map_option agentId (map_of (tasks (handleAgentFailed h e s)) j)
        = map_option agentId (map_of (tasks s) j)
   \<and> map_option agentId (map_of (tasks (timeoutCallback h s)) j)
        = map_option agentId (map_of (tasks s) j)
   \<and> (map_of (tasks s) i = Some t \<longrightarrow>
        map_option agentId (map_of (tasks (markRunning i h s)) i) = Some (Some h))
   \<and> agentId (newTask inp) = None"
  by (auto simp: start_def sendFollowUp_def truthy_def agentId_handleAgentComplete
      agentId_handleAgentFailed agentId_timeoutCallback lookup_markRunning newTask_def
      split: option.splits)

lemma completedUnbound_facts:
  "map_option (\<lambda>t. (status t, agentId t)) (map_of (tasks completedUnbound) ''A'')
     = Some (Completed, Some ''a1'')"
  "map_of (activeAgents completedUnbound) ''a1'' = None"
  "isRunning oneRunning"
  "map_of (tasks oneRunning) ''B'' = None"
  "map_option status (map_of (tasks oneRunning) ''A'') = Some Running"
  unfolding completedUnbound_def by code_simp+

theorem followUp_goes_to_recorded_agent_witness:
  "isRunning oneRunning
   \<and> start oneRunning = (Inl (Error ''Orchestrator is already running''), oneRunning)
   \<and> sendFollowUp ''B'' ''more'' oneRunning
       = (Inl (Error ''No active agent for task B''), oneRunning)
   \<and> map_of (activeAgents completedUnbound) ''a1'' = None
   \<and> sendFollowUp ''A'' ''more'' completedUnbound
       = (Inr (), logEvent (SendFollowUp ''a1'' ''more'') completedUnbound)
   \<and> map_option agentId (map_of (tasks (markRunning ''A'' ''a2'' oneRunning)) ''A'')
       = Some (Some ''a2'')"
proof -
  from completedUnbound_facts(1) obtain t where
    t: "map_of (tasks completedUnbound) ''A'' = Some t" "agentId t = Some ''a1''" by auto
  from completedUnbound_facts(5) obtain t0 where
    t0: "map_of (tasks oneRunning) ''A'' = Some t0" by auto
  from followUp_goes_to_recorded_agent
      [of oneRunning "''B''" "''more''" t0 "''a1''" "''a2''" noResult "''B''" "''x''" "mkInput [] [] 0 None False"]
    followUp_goes_to_recorded_agent
      [of completedUnbound "''A''" "''more''" t "''a1''" "''a2''" noResult "''A''" "''x''" "mkInput [] [] 0 None False"]
    followUp_goes_to_recorded_agent
      [of oneRunning "''A''" "''more''" t0 "''a1''" "''a2''" noResult "''A''" "''x''" "mkInput [] [] 0 None False"]
    completedUnbound_facts(2,3,4) t t0
  show ?thesis by simp
qed

section \<open>Stopping\<close>





section \<open>The aggregate completion signal\<close>

lemma emitted_logEvent:
  "emitted (logEvent e s) = (if e = AllComplete then Suc (emitted s) else emitted s)"
  by (simp add: emitted_def)

lemma emitted_trace: "trace s' = trace s \<Longrightarrow> emitted s' = emitted s"
  by (simp add: emitted_def)

lemma emitted_updates [simp]:
  "emitted (s\<lparr>tasks := ts\<rparr>) = emitted s" "emitted (s\<lparr>completed := c\<rparr>) = emitted s"
  "emitted (s\<lparr>activeAgents := aa\<rparr>) = emitted s" "emitted (s\<lparr>timeouts := tt\<rparr>) = emitted s"
  "emitted (s\<lparr>timers := tm\<rparr>) = emitted s" "emitted (s\<lparr>nextTimer := n\<rparr>) = emitted s"
  "emitted (s\<lparr>isRunning := b\<rparr>) = emitted s" "emitted (s\<lparr>awaiting := aw\<rparr>) = emitted s"
  by (simp_all add: emitted_def)

lemma emitted_clearAllTimeouts [simp]: "emitted (clearAllTimeouts s) = emitted s"
  by (simp add: emitted_def)

lemma emitted_dispatchLoop [simp]: "emitted (dispatchLoop b s) = emitted s"
  by (cases b) (simp_all add: emitted_def)

lemma emitted_trySpawnAgents [simp]: "emitted (trySpawnAgents s) = emitted s"
  by (simp add: trySpawnAgents_def Let_def)

lemma emitted_setTask [simp]: "emitted (setTask i t s) = emitted s"
  by (simp add: emitted_def)

lemma emitted_readyStep [simp]: "emitted (readyStep k s) = emitted s"
  by (simp add: readyStep_def emitted_logEvent split: option.splits)

lemma emitted_fold_readyStep [simp]: "emitted (fold readyStep ks s) = emitted s"
  by (induction ks arbitrary: s) simp_all

lemma emitted_updateReadyTasks [simp]: "emitted (updateReadyTasks s) = emitted s"
  by (simp add: updateReadyTasks_def)

lemma emitted_onAllComplete [simp]: "emitted (onAllComplete s) = emitted s"
  by (simp add: onAllComplete_def emitted_logEvent)

lemma emitted_checkAllComplete:
  "emitted (checkAllComplete s) = emitted s + (if allDone s then 1 else 0)"
  by (simp add: checkAllComplete_def emitted_logEvent)

lemma allDone_checkAllComplete [simp]: "allDone (checkAllComplete s) = allDone s"
  by (simp add: allDone_def)

lemma allDone_trySpawnAgents [simp]: "allDone (trySpawnAgents s) = allDone s"
  by (simp add: allDone_def)

lemma allDone_dispatchLoop [simp]: "allDone (dispatchLoop b s) = allDone s"
  by (simp add: allDone_def)

lemma emitsWhenDone_refl [simp]: "emitsWhenDone s s"
  by (simp add: emitsWhenDone_def)

lemma emitsWhenDone_checkAllComplete: "emitsWhenDone s (checkAllComplete s)"
  by (simp add: emitsWhenDone_def emitted_checkAllComplete)

lemma emitsWhenDone_pre:
  "emitted s1 = emitted s \<Longrightarrow> emitsWhenDone s1 s2 \<Longrightarrow> emitsWhenDone s s2"
  by (simp add: emitsWhenDone_def)

lemma emitsWhenDone_post:
  "emitsWhenDone s s1 \<Longrightarrow> emitted s2 = emitted s1 \<Longrightarrow> allDone s2 = allDone s1 \<Longrightarrow>
   emitsWhenDone s s2"
  by (simp add: emitsWhenDone_def)

lemma emitted_markRunning [simp]: "emitted (markRunning i a s) = emitted s"
  by (simp add: markRunning_def emitted_logEvent split: option.splits)

lemma emitted_markCompleted_unchecked [simp]: "emitted (markCompleted i r False s) = emitted s"
  by (simp add: markCompleted_def Let_def emitted_logEvent split: option.splits)

lemma emitsWhenDone_markCompleted: "emitsWhenDone s (markCompleted i r c s)"
proof (cases "map_of (tasks s) i")
  case None
  then show ?thesis by (simp add: markCompleted_def)
next
  case (Some t)
  show ?thesis
  proof (cases c)
    case False
    then show ?thesis by (simp add: emitsWhenDone_def)
  next
    case True
    let ?x = "updateReadyTasks (logEvent SaveState (logEvent (TaskCompleted i)
        ((setTask i (t\<lparr>status := Completed, result := Some r\<rparr>) s)
           \<lparr>completed := insert i (completed s)\<rparr>)))"
    have "emitted ?x = emitted s" by (simp add: emitted_logEvent)
    then have "emitsWhenDone s (checkAllComplete ?x)"
      using emitsWhenDone_checkAllComplete by (rule emitsWhenDone_pre)
    with Some True show ?thesis by (simp add: markCompleted_def Let_def)
  qed
qed

lemma emitsWhenDone_markFailed: "emitsWhenDone s (markFailed i e m s)"
proof (cases "map_of (tasks s) i")
  case None
  then show ?thesis by (simp add: markFailed_def)
next
  case (Some t)
  let ?x = "logEvent SaveState (logEvent (TaskFailed i)
      (setTask i (t\<lparr>status := Failed, error := Some e\<rparr>) s))"
  have "emitted ?x = emitted s" by (simp add: emitted_logEvent)
  then have "emitsWhenDone s (checkAllComplete ?x)"
    using emitsWhenDone_checkAllComplete by (rule emitsWhenDone_pre)
  with Some show ?thesis
    by (simp add: markFailed_def emitted_logEvent emitsWhenDone_def)
qed

lemma emitted_clearTimeout [simp]: "emitted (clearTimeout a s) = emitted s"
  by (simp add: emitted_def)

lemma emitted_unbind [simp]: "emitted (unbind a s) = emitted s"
  by (simp add: unbind_def)

lemma emitted_resume [simp]: "emitted (resume k s) = emitted s"
  by (simp add: emitted_def)

lemma emitsWhenDone_handleAgentComplete: "emitsWhenDone s (handleAgentComplete a r s)"
proof (cases "truthy (map_of (activeAgents s) a)")
  case False
  then show ?thesis by (simp add: handleAgentComplete_def)
next
  case True
  let ?s2 = "clearTimeout a (unbind a s)"
  have "emitted ?s2 = emitted s" by simp
  then have "emitsWhenDone s (markCompleted (the (map_of (activeAgents s) a)) r True ?s2)"
    using emitsWhenDone_markCompleted by (rule emitsWhenDone_pre)
  then have "emitsWhenDone s (trySpawnAgents (markCompleted (the (map_of (activeAgents s) a)) r True ?s2))"
    by (rule emitsWhenDone_post) simp_all
  with True show ?thesis by (simp add: handleAgentComplete_def Let_def)
qed

lemma emitsWhenDone_handleAgentFailed: "emitsWhenDone s (handleAgentFailed a e s)"
proof (cases "truthy (map_of (activeAgents s) a)")
  case False
  then show ?thesis by (simp add: handleAgentFailed_def)
next
  case True
  let ?s3 = "logEvent (StopMonitoring a) (clearTimeout a (unbind a s))"
  have "emitted ?s3 = emitted s" by (simp add: emitted_logEvent)
  then have "emitsWhenDone s (markFailed (the (map_of (activeAgents s) a)) e defaultMaxRetries ?s3)"
    using emitsWhenDone_markFailed by (rule emitsWhenDone_pre)
  then have "emitsWhenDone s
      (trySpawnAgents (markFailed (the (map_of (activeAgents s) a)) e defaultMaxRetries ?s3))"
    by (rule emitsWhenDone_post) simp_all
  with True show ?thesis by (simp add: handleAgentFailed_def Let_def)
qed

lemma emitsWhenDone_timeoutCallback:
  "emitted s1 = emitted s \<Longrightarrow> emitsWhenDone s (timeoutCallback a s1)"
proof -
  assume e: "emitted s1 = emitted s"
  have "emitted (logEvent (StopAgent a) s1) = emitted s" by (simp add: emitted_logEvent e)
  then have "emitsWhenDone s (handleAgentFailed a ''Timeout exceeded'' (logEvent (StopAgent a) s1))"
    using emitsWhenDone_handleAgentFailed by (rule emitsWhenDone_pre)
  then show ?thesis using e by (simp add: timeoutCallback_def emitsWhenDone_def)
qed

lemma emitsWhenDone_resume [simp]: "emitsWhenDone s (resume k s)"
  by (simp add: emitsWhenDone_def)

lemma emitsWhenDone_failThenLoop:
  "emitsWhenDone s (dispatchLoop rest (markFailed t e m (resume k s)))"
proof -
  have "emitsWhenDone s (markFailed t e m (resume k s))"
    by (rule emitsWhenDone_pre [OF _ emitsWhenDone_markFailed]) simp
  then show ?thesis by (rule emitsWhenDone_post) simp_all
qed

lemma emitted_addOne [simp]: "emitted (addOne inp s) = emitted s"
  by (simp add: addOne_def Let_def)

lemma emitted_fold_addOne [simp]: "emitted (fold addOne inputs s) = emitted s"
  by (induction inputs arbitrary: s) simp_all

lemma emitted_loadTasks: "emitted (loadTasks inputs s) = emitted s"
  by (simp add: loadTasks_def addTasks_def)

lemma emitted_spawnAgentBound [simp]: "emitted (spawnAgentBound t rest a s) = emitted s"
  by (simp add: spawnAgentBound_def Let_def emitted_logEvent)

lemma emitted_stopLoop [simp]: "emitted (stopLoop n s) = emitted s"
  by (simp add: stopLoop_def emitted_logEvent)

lemma emitted_stop [simp]: "emitted (stop s) = emitted s"
  by (simp add: stop_def emitted_logEvent)

lemma emitsWhenDone_step:
  assumes "step a s = Some s'"
  shows "emitsWhenDone s s'"
proof (cases a)
  case (LoadTasks inputs)
  with assms show ?thesis by (auto simp: emitsWhenDone_def emitted_loadTasks)
next
  case Start
  have "emitted (snd (start s)) = emitted s"
    by (cases "isRunning s") (simp_all add: start_def emitted_logEvent)
  with Start assms show ?thesis by (auto simp: emitsWhenDone_def)
next
  case Stop
  with assms show ?thesis by (auto simp: emitsWhenDone_def)
next
  case (FollowUp i m)
  have "emitted (snd (sendFollowUp i m s)) = emitted s"
    by (simp add: sendFollowUp_def emitted_logEvent split: option.splits)
  with FollowUp assms show ?thesis by (auto simp: emitsWhenDone_def)
next
  case (CreateResolved k a)
  with assms show ?thesis
    by (auto simp: emitsWhenDone_def createResolved_def split: option.splits suspended.splits)
next
  case (CreateRejected k msg)
  with assms show ?thesis
    by (auto simp: createRejected_def emitsWhenDone_failThenLoop
        split: option.splits suspended.splits)
next
  case (SaveResolved k)
  with assms show ?thesis
    by (auto simp: emitsWhenDone_def saveResolved_def split: option.splits suspended.splits)
next
  case (SaveRejected k msg)
  with assms show ?thesis
    by (auto simp: saveRejected_def emitsWhenDone_failThenLoop
        split: option.splits suspended.splits)
next
  case (StopSettled k)
  with assms show ?thesis
    by (auto simp: emitsWhenDone_def stopSettled_def split: option.splits suspended.splits)
next
  case (SigCompleted a r)
  with assms show ?thesis by (auto simp: emitsWhenDone_handleAgentComplete)
next
  case (SigFailed a summary)
  with assms show ?thesis by (auto simp: emitsWhenDone_handleAgentFailed)
next
  case (SigCancelled a)
  with assms show ?thesis by (auto simp: emitsWhenDone_handleAgentFailed)
next
  case (SigError a msg)
  with assms show ?thesis by simp
next
  case (TimerFires n)
  with assms show ?thesis
    by (auto simp: timerFires_def intro!: emitsWhenDone_timeoutCallback
        split: option.splits)
qed

text \<open>
  What holds of the aggregate signal: \<open>checkAllComplete\<close> emits \<open>allComplete\<close> exactly
  when every task is \<open>completed\<close> or \<open>failed\<close>; loading tasks never emits it; and a
  step of the event loop that emits it emits it once, and every task is \<open>completed\<close> or
  \<open>failed\<close> when the step ends.
\<close>

lemma allComplete_only_when_all_terminal:
  "emitted (checkAllComplete s) = emitted s + (if allDone s then 1 else 0)
   \<and> emitted (loadTasks inputs s) = emitted s
   \<and> (step a s = Some s' \<and> emitted s' \<noteq> emitted s \<longrightarrow>
        emitted s' = Suc (emitted s) \<and> allDone s')"
  using emitsWhenDone_step [of a s s']
  by (auto simp: emitted_checkAllComplete emitted_loadTasks emitsWhenDone_def)

lemma oneRunning_emitted: "emitted oneRunning = 0"
  "emitted (handleAgentComplete ''a1'' noResult oneRunning) = 1"
  by code_simp+

lemma allComplete_only_when_all_terminal_example:
  "step (SigCompleted ''a1'' noResult) oneRunning = Some (handleAgentComplete ''a1'' noResult oneRunning)
   \<and> emitted (handleAgentComplete ''a1'' noResult oneRunning) \<noteq> emitted oneRunning
   \<and> emitted (handleAgentComplete ''a1'' noResult oneRunning) = Suc (emitted oneRunning)
   \<and> allDone (handleAgentComplete ''a1'' noResult oneRunning)"
  using allComplete_only_when_all_terminal
    [of oneRunning "[]" "SigCompleted ''a1'' noResult" "handleAgentComplete ''a1'' noResult oneRunning"]
    oneRunning_emitted
  by simp

section \<open>Runs that break the concurrency bound, the retry policy and the completion signal\<close>

text \<open>
  C1 says that the number of live bindings never exceeds \<open>maxConcurrent\<close>. The free
  slots are computed once per invocation of the dispatch loop and a task stays \<open>ready\<close>
  until its \<open>createAgent\<close> has returned, so two invocations that overlap dispatch the same
  task. With \<open>maxConcurrent = 1\<close>, task \<open>A\<close> and task \<open>B\<close> depending on \<open>A\<close>: the
  completion of \<open>A\<close> makes \<open>B\<close> ready, the listener of \<open>taskReady\<close> dispatches \<open>B\<close>, and
  \<open>handleAgentComplete\<close> dispatches \<open>B\<close> again; when both \<open>createAgent\<close> calls have
  returned there are two bindings.
\<close>

theorem dependent_dispatched_twice:
  "map_option (\<lambda>s. (maxConcurrent s, length (activeAgents s), activeAgents s))
     (run [LoadTasks [mkInput ''A'' [] 0 None False, mkInput ''B'' [''A''] 0 None False],
           Start, SaveResolved 0, CreateResolved 0 ''a1'', SaveResolved 0,
           SigCompleted ''a1'' noResult,
           CreateResolved 0 ''a2'', CreateResolved 0 ''a3''] (init 1))
   = Some (1, 2, [(''a2'', ''B''), (''a3'', ''B'')])"
  by code_simp

text \<open>
  C2 says that a task with \<open>retries = R\<close> becomes \<open>failed\<close> only when \<open>attempts = R + 1\<close>
  and goes back to \<open>ready\<close> at every lower count. \<open>markFailed\<close> compares
  \<open>attempts < retries\<close>, and \<open>attempts\<close> is already 1 at the first failure: a task with
  \<open>retries = 1\<close> is \<open>failed\<close> after its first attempt, with \<open>attempts = 1\<close>.
\<close>

theorem retries_one_fails_on_first_attempt:
  "map_option summary
     (run [LoadTasks [mkInput ''A'' [] 0 (Some 1) False],
           Start, SaveResolved 0, CreateResolved 0 ''a1'', SaveResolved 0,
           SigFailed ''a1'' None] (init 1))
   = Some [(''A'', Failed, 1)]"
  by code_simp

text \<open>
  C7 says that a rejected start is routed into the failure and retry path and counted as
  one failed attempt. The \<open>catch\<close> of the dispatch loop calls \<open>markFailed\<close>, but
  \<open>attempts\<close> is incremented by \<open>markRunning\<close> only, after a start has succeeded: \<open>A\<close>,
  with \<open>retries = 1\<close>, is rejected twice and is \<open>ready\<close> again with \<open>attempts = 0\<close>; the
  retry limit is never reached, nothing is in flight and the run never completes.
\<close>

theorem rejected_start_is_never_counted:
  "map_option (\<lambda>s. (map (\<lambda>(k, t). (k, status t, attempts t, retries t)) (tasks s),
                    activeAgents s, awaiting s, isRunning s, count_list (trace s) AllComplete))
     (run [LoadTasks [mkInput ''A'' [] 1 (Some 1) False, mkInput ''B'' [] 0 None False],
           Start, SaveResolved 0,
           CreateRejected 0 ''rejected'', CreateResolved 0 ''b1'', SaveResolved 0,
           SigCompleted ''b1'' noResult, CreateRejected 0 ''rejected''] (init 2))
   = Some ([(''A'', Ready, 0, Some 1), (''B'', Completed, 1, None)], [], [], True, 0)"
  by code_simp

text \<open>
  C3 says that \<open>allComplete\<close> is emitted exactly once in every run, also when every
  loaded task is pre-marked complete. \<open>addTasks\<close> calls \<open>markCompleted\<close> with
  \<open>checkComplete = false\<close> and nothing checks afterwards: the run comes to rest with
  every task \<open>completed\<close>, nothing suspended, no binding, no timer, the run flag still
  set, and \<open>allComplete\<close> emitted zero times.
\<close>

theorem premarked_run_never_completes:
  "map_option (\<lambda>s. (summary s, awaiting s, activeAgents s, timers s, isRunning s,
                    count_list (trace s) AllComplete))
     (run [LoadTasks [mkInput ''A'' [] 0 None True, mkInput ''B'' [''A''] 0 None True],
           Start, SaveResolved 0] (init 1))
   = Some ([(''A'', Completed, 0), (''B'', Completed, 0)], [], [], [], True, 0)"
  by code_simp

text \<open>
  A task dispatched twice is bound to two handles; when both agents complete,
  \<open>markCompleted\<close> runs twice and the aggregate signal is emitted twice.
\<close>

lemma double_dispatch_completes_twice:
  "map_option (\<lambda>s. (summary s, count_list (trace s) AllComplete))
     (run [LoadTasks [mkInput ''A'' [] 0 None False, mkInput ''B'' [''A''] 0 None False],
           Start, SaveResolved 0, CreateResolved 0 ''a1'', SaveResolved 0,
           SigCompleted ''a1'' noResult,
           CreateResolved 0 ''a2'', CreateResolved 0 ''a3'',
           SigCompleted ''a2'' noResult, SigCompleted ''a3'' noResult] (init 1))
   = Some ([(''A'', Completed, 1), (''B'', Completed, 2)], 2)"
  by code_simp

end
